theory Spec2Isabelle
  imports Complex_Main "HOL-Library.Multiset"
begin

section \<open>Strings and numbers\<close>

text \<open>
  Strings are character lists: a character is one code unit with a value below 256 (the
  Latin-1 part of UTF-16), \<open>length\<close> is the string's \<open>length\<close>, and the character classes
  below are the JavaScript ones on these code units. Text with a code unit from 256 on is
  outside the model.

  Numbers are integers of unbounded size, where the code has binary64 values. The two agree
  while every number met is an integer below \<open>2 ^ 53\<close> in absolute value: that is the range
  the model covers. Beyond it the code rounds what \<open>parseInt\<close> returns, the counter of a
  loop no longer advances by one, and from \<open>10 ^ 21\<close> on \<open>String\<close> prints an exponent
  form.
\<close>

definition is_digit :: "char \<Rightarrow> bool" where
  "is_digit c = (48 \<le> (of_char c :: nat) \<and> (of_char c :: nat) \<le> 57)"

text \<open>The regular expression class \<open>\s\<close>, which is also what \<open>trim\<close> removes: tab, line feed,
  vertical tab, form feed, carriage return, space and no-break space (U+00A0).\<close>

definition is_space :: "char \<Rightarrow> bool" where
  "is_space c = ((of_char c :: nat) \<in> {9, 10, 11, 12, 13, 32, 160})"

text \<open>The regular expression \<open>.\<close> matches every character but a line terminator.\<close>

definition is_dot :: "char \<Rightarrow> bool" where
  "is_dot c = ((of_char c :: nat) \<notin> {10, 13})"

text \<open>
  Under the flag \<open>i\<close> two characters match when their canonical forms are equal: the
  upper-case form where that is one code unit, the character itself otherwise. Below 256
  the letters \<open>a\<close> to \<open>z\<close> and U+00E0 to U+00FE without the division sign U+00F7 have their
  upper-case form 32 below; U+00DF has a two-letter one and stays; U+00B5 and U+00FF have
  theirs above 255, equal to that of no other character below 256, and stand for it.
\<close>

definition canonicalize :: "char \<Rightarrow> char" where
  "canonicalize c =
     (if (97 \<le> (of_char c :: nat) \<and> (of_char c :: nat) \<le> 122) \<or>
         (224 \<le> (of_char c :: nat) \<and> (of_char c :: nat) \<le> 254 \<and> (of_char c :: nat) \<noteq> 247)
      then char_of ((of_char c :: nat) - 32) else c)"

definition digit_char :: "nat \<Rightarrow> char" where
  "digit_char d = char_of (48 + d)"

definition digit_val :: "char \<Rightarrow> nat" where
  "digit_val c = (of_char c :: nat) - 48"

text \<open>\<open>String(n)\<close> for a non-negative integer below \<open>10 ^ 21\<close>: its decimal digits.\<close>

fun String_nat :: "nat \<Rightarrow> string" where
  "String_nat n =
     (if n < 10 then [digit_char n] else String_nat (n div 10) @ [digit_char (n mod 10)])"

declare String_nat.simps [simp del]

definition String_int :: "int \<Rightarrow> string" where
  "String_int i = (if i < 0 then CHR ''-'' # String_nat (nat (- i)) else String_nat (nat i))"

text \<open>\<open>parseInt(ds, 10)\<close> on a string of decimal digits.\<close>

definition parseInt :: "string \<Rightarrow> nat" where
  "parseInt ds = foldl (\<lambda>acc c. 10 * acc + digit_val c) 0 ds"

text \<open>\<open>s.padStart(n, '0')\<close>.\<close>

definition padStart :: "nat \<Rightarrow> string \<Rightarrow> string" where
  "padStart n s = replicate (n - length s) CHR ''0'' @ s"

section \<open>Requirement range expansion (parser/log-parser.ts)\<close>

text \<open>
  \<open>expandRequirementRange\<close> matches its argument against the regular expression
  \<^verbatim>\<open>/^(.+-?)(\d+)\s+through\s+\1(\d+)$/i\<close>.
  The matcher below follows the backtracking order of that expression piece by piece:
  a greedy \<open>X+\<close> offers its splits of the remaining input longest first, the greedy \<open>-?\<close>
  offers the split that takes the dash before the one that does not, and the first
  alternative on which the rest of the expression matches is the match.
\<close>

fun first_some :: "('a \<Rightarrow> 'b option) \<Rightarrow> 'a list \<Rightarrow> 'b option" where
  "first_some f [] = None"
| "first_some f (x # xs) = (case f x of Some y \<Rightarrow> Some y | None \<Rightarrow> first_some f xs)"

text \<open>The splits \<open>(taken, rest)\<close> of a greedy \<open>X+\<close>, where \<open>X\<close> is a character class.\<close>

fun plus_splits :: "(char \<Rightarrow> bool) \<Rightarrow> string \<Rightarrow> (string \<times> string) list" where
  "plus_splits P [] = []"
| "plus_splits P (c # cs) =
     (if P c then map (\<lambda>(ys, zs). (c # ys, zs)) (plus_splits P cs) @ [([c], cs)] else [])"

text \<open>The splits of a greedy \<open>-?\<close>.\<close>

fun opt_splits :: "char \<Rightarrow> string \<Rightarrow> (string \<times> string) list" where
  "opt_splits d [] = [([], [])]"
| "opt_splits d (c # cs) = (if c = d then [([c], cs), ([], c # cs)] else [([], c # cs)])"

text \<open>A literal or a back reference under the flag \<open>i\<close>: the rest of the input after it.\<close>

fun strip_ci :: "string \<Rightarrow> string \<Rightarrow> string option" where
  "strip_ci [] r = Some r"
| "strip_ci (p # ps) [] = None"
| "strip_ci (p # ps) (c # cs) =
     (if canonicalize p = canonicalize c then strip_ci ps cs else None)"

text \<open>The part of the expression after the first group, \<^verbatim>\<open>(\d+)\s+through\s+\1(\d+)$\<close>,
  given the text \<open>g\<close> of the first group.\<close>

definition match_tail :: "string \<Rightarrow> string \<Rightarrow> (string \<times> string) option" where
  "match_tail g r1 =
     first_some (\<lambda>(d1, r2).
       first_some (\<lambda>(ws1, r3).
         case strip_ci ''through'' r3 of
           None \<Rightarrow> None
         | Some r4 \<Rightarrow>
             first_some (\<lambda>(ws2, r5).
               case strip_ci g r5 of
                 None \<Rightarrow> None
               | Some r6 \<Rightarrow>
                   first_some (\<lambda>(d2, r7). if r7 = [] then Some (d1, d2) else None)
                     (plus_splits is_digit r6))
               (plus_splits is_space r4))
         (plus_splits is_space r2))
       (plus_splits is_digit r1)"

text \<open>The whole match: the three groups \<open>match[1]\<close>, \<open>match[2]\<close>, \<open>match[3]\<close>, or \<open>None\<close>
  when \<open>rangeStr.match\<close> returns \<open>null\<close>.\<close>

definition match_range :: "string \<Rightarrow> (string \<times> string \<times> string) option" where
  "match_range s =
     first_some (\<lambda>(a, r0).
       first_some (\<lambda>(dash, r1).
         case match_tail (a @ dash) r1 of
           None \<Rightarrow> None
         | Some (d1, d2) \<Rightarrow> Some (a @ dash, d1, d2))
         (opt_splits CHR ''-'' r0))
       (plus_splits is_dot s)"

text \<open>
  \<open>expandRequirementRange\<close>. The loop \<^verbatim>\<open>for (let i = start; i <= end; i++)\<close> pushes one
  identifier for each number from \<open>start\<close> to \<open>end\<close>; in the range of the model (numbers
  below \<open>2 ^ 53\<close>) the counter takes each of them in turn.
\<close>

definition expandRequirementRange :: "string \<Rightarrow> string list" where
  "expandRequirementRange rangeStr =
     (case match_range rangeStr of
        None \<Rightarrow> [rangeStr]
      | Some (prefix, m2, m3) \<Rightarrow>
          (let start = parseInt m2; end = parseInt m3; padLength = length m2 in
           if start > end then [rangeStr]
           else map (\<lambda>i. prefix @ padStart padLength (String_nat i)) [start ..< Suc end]))"

definition expandAllRequirements :: "string list \<Rightarrow> string list" where
  "expandAllRequirements requirements = concat (map expandRequirementRange requirements)"

section \<open>Log entries (types/log-entry.ts)\<close>

text \<open>
  \<open>LogEntry\<close>. The TypeScript casts of the parser (\<open>as number\<close>, \<open>as string | null\<close>,
  \<open>as string[]\<close>) are not checked when the program runs, so the fields they fill hold
  whatever the line held. The record therefore leaves open the type \<open>'n\<close> of the fields
  declared \<open>number\<close> and the type \<open>'s\<close> of the fields declared \<open>string\<close> that are filled
  through a cast. The indexer, the pairing and the phase statistics work on entries typed as
  declared, \<open>Entry\<close>. An \<open>action\<close> is a string: the parser accepts every value.
\<close>

record ('n, 's) LogEntry =
  log_seq :: 'n
  work_seq :: string
  timestamp :: string
  agent :: string
  action :: string
  phase :: string
  parent_log_seq :: "'n option"
  requirements :: "'s list"
  task_id :: "'s option"
  details :: string
  files_created :: "'s list"
  files_modified :: "'s list"
  decisions :: "'s list"
  errors :: "'s list"
  duration_ms :: "'n option"

type_synonym Entry = "(int, string) LogEntry"

section \<open>JavaScript maps and sets\<close>

text \<open>
  A \<open>Map\<close> keeps its keys in insertion order: it is a list of key-value pairs with
  distinct keys. \<open>set\<close> on a key that is present replaces the value in place, on a new key
  it appends. A \<open>Set\<close> is a list without repetition, in insertion order.
\<close>

type_synonym ('k, 'v) jsmap = "('k \<times> 'v) list"

definition Map_has :: "'k \<Rightarrow> ('k, 'v) jsmap \<Rightarrow> bool" where
  "Map_has k m = (map_of m k \<noteq> None)"

definition Map_get :: "('k, 'v) jsmap \<Rightarrow> 'k \<Rightarrow> 'v option" where
  "Map_get m k = map_of m k"

fun Map_set :: "'k \<Rightarrow> 'v \<Rightarrow> ('k, 'v) jsmap \<Rightarrow> ('k, 'v) jsmap" where
  "Map_set k v [] = [(k, v)]"
| "Map_set k v (p # m) = (if fst p = k then (k, v) # m else p # Map_set k v m)"

definition Set_add :: "'a \<Rightarrow> 'a list \<Rightarrow> 'a list" where
  "Set_add x xs = (if x \<in> set xs then xs else xs @ [x])"

text \<open>The recurring statement pair
  \<^verbatim>\<open>if (!m.has(k)) m.set(k, []); m.get(k)!.push(x);\<close>\<close>

definition push_at :: "'k \<Rightarrow> 'a \<Rightarrow> ('k, 'a list) jsmap \<Rightarrow> ('k, 'a list) jsmap" where
  "push_at k x m =
     (let m1 = (if \<not> Map_has k m then Map_set k [] m else m) in
      case Map_get m1 k of
        Some xs \<Rightarrow> Map_set k (xs @ [x]) m1
      | None \<Rightarrow> m1)"

section \<open>The index builder (indexer/indexer.ts)\<close>

record FileStats =
  path :: string
  directory :: string
  createCount :: nat
  modifyCount :: nat
  totalCount :: nat
  agents :: "string list"
  isChurn :: bool

text \<open>\<open>RequirementTrace\<close>; its fields \<open>entry\<close>, \<open>phase\<close>, \<open>action\<close> carry the prefix
  \<open>trace_\<close> here, as a record field name is global.\<close>

record RequirementTrace =
  trace_entry :: Entry
  trace_phase :: string
  trace_action :: string

record LogIndices =
  entryMap :: "(int, Entry) jsmap"
  agentIndex :: "(string, Entry list) jsmap"
  phaseIndex :: "(string, Entry list) jsmap"
  workSeqIndex :: "(string, Entry list) jsmap"
  fileFrequencyMap :: "(string, FileStats) jsmap"
  requirementIndex :: "(string, RequirementTrace list) jsmap"
  parentChildMap :: "(int, int list) jsmap"

datatype ChangeType = Create | Modify

text \<open>\<open>s.lastIndexOf(c)\<close>: the last position of \<open>c\<close>, or \<open>-1\<close>.\<close>

definition lastIndexOf :: "char \<Rightarrow> string \<Rightarrow> int" where
  "lastIndexOf c s =
     (case filter (\<lambda>i. s ! i = c) (rev [0 ..< length s]) of
        [] \<Rightarrow> - 1
      | i # _ \<Rightarrow> int i)"

text \<open>\<open>s.substring(0, e)\<close>: a negative \<open>e\<close> counts as 0.\<close>

definition substring0 :: "string \<Rightarrow> int \<Rightarrow> string" where
  "substring0 s e = take (nat e) s"

definition updateFileStats ::
  "(string, FileStats) jsmap \<Rightarrow> string \<Rightarrow> string \<Rightarrow> ChangeType \<Rightarrow> (string, FileStats) jsmap" where
  "updateFileStats fileFrequencyMap' filePath agent' ty =
     (let sub = substring0 filePath (lastIndexOf CHR ''/'' filePath);
          directory' = (if sub = [] then ''/'' else sub);
          fm1 = (if \<not> Map_has filePath fileFrequencyMap'
                 then Map_set filePath
                        \<lparr>path = filePath, directory = directory', createCount = 0,
                         modifyCount = 0, totalCount = 0, agents = [], isChurn = False\<rparr>
                        fileFrequencyMap'
                 else fileFrequencyMap')
      in case Map_get fm1 filePath of
           None \<Rightarrow> fm1
         | Some stats \<Rightarrow>
             (let s1 = stats\<lparr>agents := Set_add agent' (agents stats)\<rparr>;
                  s2 = (if ty = Create then s1\<lparr>createCount := createCount s1 + 1\<rparr>
                        else s1\<lparr>modifyCount := modifyCount s1 + 1\<rparr>);
                  s3 = s2\<lparr>totalCount := createCount s2 + modifyCount s2\<rparr>;
                  s4 = s3\<lparr>isChurn := (createCount s3 > 0 \<and> modifyCount s3 > 0)\<rparr>
              in Map_set filePath s4 fm1))"

text \<open>\<open>indexEntry\<close> changes the seven maps in place; here it returns them.\<close>

definition indexEntry :: "Entry \<Rightarrow> LogIndices \<Rightarrow> LogIndices" where
  "indexEntry e idx =
     (let i1 = idx\<lparr>entryMap := Map_set (log_seq e) e (entryMap idx)\<rparr>;
          i2 = i1\<lparr>agentIndex := push_at (agent e) e (agentIndex i1)\<rparr>;
          i3 = (if phase e \<noteq> [] then i2\<lparr>phaseIndex := push_at (phase e) e (phaseIndex i2)\<rparr>
                else i2);
          i4 = i3\<lparr>workSeqIndex := push_at (work_seq e) e (workSeqIndex i3)\<rparr>;
          i5 = i4\<lparr>fileFrequencyMap :=
                 foldl (\<lambda>fm filePath. updateFileStats fm filePath (agent e) Create)
                   (fileFrequencyMap i4) (files_created e)\<rparr>;
          i6 = i5\<lparr>fileFrequencyMap :=
                 foldl (\<lambda>fm filePath. updateFileStats fm filePath (agent e) Modify)
                   (fileFrequencyMap i5) (files_modified e)\<rparr>;
          i7 = (if length (requirements e) > 0
                then i6\<lparr>requirementIndex :=
                       foldl (\<lambda>ri reqId.
                                push_at reqId
                                  \<lparr>trace_entry = e, trace_phase = phase e, trace_action = action e\<rparr>
                                  ri)
                         (requirementIndex i6) (expandAllRequirements (requirements e))\<rparr>
                else i6)
      in case parent_log_seq e of
           None \<Rightarrow> i7
         | Some p \<Rightarrow> i7\<lparr>parentChildMap := push_at p (log_seq e) (parentChildMap i7)\<rparr>)"

definition emptyIndices :: LogIndices where
  "emptyIndices =
     \<lparr>entryMap = [], agentIndex = [], phaseIndex = [], workSeqIndex = [],
      fileFrequencyMap = [], requirementIndex = [], parentChildMap = []\<rparr>"

definition buildIndices :: "Entry list \<Rightarrow> LogIndices" where
  "buildIndices entries = foldl (\<lambda>idx e. indexEntry e idx) emptyIndices entries"

text \<open>\<open>updateIndicesIncremental\<close> returns nothing and leaves its result in \<open>indices\<close>;
  here it returns the updated indices.\<close>

definition updateIndicesIncremental :: "LogIndices \<Rightarrow> Entry list \<Rightarrow> LogIndices" where
  "updateIndicesIncremental indices newEntries =
     foldl (\<lambda>idx e. indexEntry e idx) indices newEntries"

section \<open>The file watcher (services/file-watcher.ts)\<close>

text \<open>
  The state of a \<open>FileWatcher\<close>. \<open>reReadFn\<close> and \<open>callbacks\<close> record whether the fields are
  set (\<open>start\<close> sets both, nothing clears them). \<open>calls\<close> is not a field of the class: it
  is the list of the calls the watcher has made to its callbacks, oldest first, which is
  how \<open>onNewContent\<close>, \<open>onError\<close> and \<open>onDisabled\<close> are observed.
\<close>

definition LIVE_TAIL_MAX_FAILURES :: nat where
  "LIVE_TAIL_MAX_FAILURES = 3"

datatype Callback = OnNewContent string | OnError nat | OnDisabled

record FileWatcher =
  intervalId :: "nat option"
  reReadFn :: bool
  callbacks :: bool
  consecutiveFailures :: nat
  isActive :: bool
  calls :: "Callback list"

definition newFileWatcher :: FileWatcher where
  "newFileWatcher =
     \<lparr>intervalId = None, reReadFn = False, callbacks = False, consecutiveFailures = 0,
      isActive = False, calls = []\<rparr>"

text \<open>
  What one poll meets: \<open>reReadFn\<close> resolves to a content and \<open>onNewContent\<close> returns;
  \<open>reReadFn\<close> resolves to a content and \<open>onNewContent\<close> throws (the call stands inside the
  \<open>try\<close> block); \<open>reReadFn\<close> resolves to \<open>null\<close>; \<open>reReadFn\<close> rejects. \<open>onError\<close> and
  \<open>onDisabled\<close> return. A poll runs to its end before the next event.
\<close>

datatype PollOutcome = Delivered string | HandlerThrows string | ReadNull | ReadRejects

definition stop :: "FileWatcher \<Rightarrow> FileWatcher" where
  "stop w =
     (let w1 = (if intervalId w \<noteq> None then w\<lparr>intervalId := None\<rparr> else w)
      in w1\<lparr>isActive := False\<rparr>)"

text \<open>\<open>start\<close>; \<open>h\<close> is the handle that \<open>setInterval\<close> returns.\<close>

definition start :: "nat \<Rightarrow> FileWatcher \<Rightarrow> FileWatcher" where
  "start h w =
     (stop w)\<lparr>reReadFn := True, callbacks := True, consecutiveFailures := 0,
              isActive := True, intervalId := Some h\<rparr>"

text \<open>The \<open>catch\<close> block of \<open>poll\<close>.\<close>

definition poll_catch :: "FileWatcher \<Rightarrow> FileWatcher" where
  "poll_catch w =
     (let w1 = w\<lparr>consecutiveFailures := consecutiveFailures w + 1\<rparr>;
          w2 = w1\<lparr>calls := calls w1 @ [OnError (consecutiveFailures w1)]\<rparr>
      in if consecutiveFailures w2 \<ge> LIVE_TAIL_MAX_FAILURES
         then (let w3 = stop w2 in w3\<lparr>calls := calls w3 @ [OnDisabled]\<rparr>)
         else w2)"

definition poll :: "PollOutcome \<Rightarrow> FileWatcher \<Rightarrow> FileWatcher" where
  "poll out w =
     (if \<not> reReadFn w \<or> \<not> callbacks w then w
      else case out of
             Delivered c \<Rightarrow> w\<lparr>consecutiveFailures := 0, calls := calls w @ [OnNewContent c]\<rparr>
           | HandlerThrows c \<Rightarrow>
               poll_catch (w\<lparr>consecutiveFailures := 0, calls := calls w @ [OnNewContent c]\<rparr>)
           | ReadNull \<Rightarrow> poll_catch w
           | ReadRejects \<Rightarrow> poll_catch w)"

definition pollNow :: "PollOutcome \<Rightarrow> FileWatcher \<Rightarrow> FileWatcher" where
  "pollNow out w = poll out w"

text \<open>The interval timer fires: it does so only while an interval is set.\<close>

definition tick :: "PollOutcome \<Rightarrow> FileWatcher \<Rightarrow> FileWatcher" where
  "tick out w = (if intervalId w = None then w else poll out w)"

datatype Event = Start nat | Stop | Tick PollOutcome | PollNow PollOutcome

fun step :: "FileWatcher \<Rightarrow> Event \<Rightarrow> FileWatcher" where
  "step w (Start h) = start h w"
| "step w Stop = stop w"
| "step w (Tick out) = tick out w"
| "step w (PollNow out) = pollNow out w"

definition run :: "Event list \<Rightarrow> FileWatcher" where
  "run es = foldl step newFileWatcher es"

definition acquisition_failed :: "PollOutcome \<Rightarrow> bool" where
  "acquisition_failed out = (out = ReadNull \<or> out = ReadRejects)"

definition watcher_inv :: "FileWatcher \<Rightarrow> bool" where
  "watcher_inv w =
     ((intervalId w \<noteq> None \<longrightarrow>
         isActive w \<and> reReadFn w \<and> callbacks w \<and> consecutiveFailures w < LIVE_TAIL_MAX_FAILURES) \<and>
      (intervalId w = None \<longrightarrow> \<not> isActive w) \<and>
      (\<not> (reReadFn w \<and> callbacks w) \<longrightarrow> consecutiveFailures w = 0))"

section \<open>Event pairing (components/views/TimelineView/pairEntries.ts)\<close>

definition TERMINAL_ACTIONS :: "string set" where
  "TERMINAL_ACTIONS =
     {''COMPLETE'', ''REVIEW_PASS'', ''TEST_PASS'', ''REVIEW_FAIL'', ''TEST_FAIL'', ''ERROR''}"

definition SUCCESS_TERMINALS :: "string set" where
  "SUCCESS_TERMINALS = {''COMPLETE'', ''REVIEW_PASS'', ''TEST_PASS''}"

definition FAILURE_TERMINALS :: "string set" where
  "FAILURE_TERMINALS = {''REVIEW_FAIL'', ''TEST_FAIL'', ''ERROR''}"

definition MARKER_ACTIONS :: "string set" where
  "MARKER_ACTIONS = {''DECISION'', ''FILE_CREATE'', ''FILE_MODIFY'', ''BLOCKED'', ''UNBLOCKED''}"

datatype Outcome = success | failure

record DurationBar =
  startEntry :: Entry
  endEntry :: Entry
  outcome :: Outcome

text \<open>The field \<open>entry\<close> of \<open>OrphanStart\<close> and of \<open>MarkerEvent\<close> is \<open>orphan_entry\<close> and
  \<open>marker_entry\<close> here.\<close>

record OrphanStart =
  orphan_entry :: Entry

record MarkerEvent =
  marker_entry :: Entry
  parentBar :: "DurationBar option"

record PairingResult =
  bars :: "DurationBar list"
  orphans :: "OrphanStart list"
  markers :: "MarkerEvent list"

text \<open>Step 1: the loop that sorts the entries into \<open>starts\<close>, \<open>terminals\<close> and
  \<open>markerEntries\<close>.\<close>

definition classify :: "Entry list \<Rightarrow> Entry list \<times> Entry list \<times> Entry list" where
  "classify entries =
     foldl (\<lambda>(ss, ts, ms) e.
              if action e = ''START'' then (ss @ [e], ts, ms)
              else if action e \<in> TERMINAL_ACTIONS then (ss, ts @ [e], ms)
              else if action e \<in> MARKER_ACTIONS then (ss, ts, ms @ [e])
              else (ss, ts, ms))
       ([], [], []) entries"

text \<open>Step 2: \<open>terminalsByAgent\<close>.\<close>

definition groupByAgent :: "Entry list \<Rightarrow> (string, Entry list) jsmap" where
  "groupByAgent ts =
     foldl (\<lambda>m t. case Map_get m (agent t) of
                     Some list \<Rightarrow> Map_set (agent t) (list @ [t]) m
                   | None \<Rightarrow> Map_set (agent t) [t] m)
       [] ts"

text \<open>The two search loops of step 3 have the same shape: skip a terminal whose \<open>log_seq\<close>
  is in \<open>consumedTerminals\<close>, stop at the first one that passes the test.\<close>

fun scan :: "(Entry \<Rightarrow> bool) \<Rightarrow> int set \<Rightarrow> Entry list \<Rightarrow> Entry option" where
  "scan ok consumed [] = None"
| "scan ok consumed (t # ts) =
     (if log_seq t \<in> consumed then scan ok consumed ts
      else if ok t then Some t
      else scan ok consumed ts)"

text \<open>\<open>if (start.task_id)\<close>: \<open>null\<close> and the empty string are falsy.\<close>

definition truthy :: "string option \<Rightarrow> bool" where
  "truthy x = (case x of None \<Rightarrow> False | Some s \<Rightarrow> s \<noteq> [])"

definition findMatch :: "Entry \<Rightarrow> Entry list \<Rightarrow> int set \<Rightarrow> Entry option" where
  "findMatch start' agentTerminals consumed =
     (let matched =
            (if truthy (task_id start')
             then scan (\<lambda>t. task_id t = task_id start' \<and> log_seq t > log_seq start')
                    consumed agentTerminals
             else None)
      in case matched of
           Some t \<Rightarrow> Some t
         | None \<Rightarrow>
             scan (\<lambda>t. phase t = phase start' \<and> parent_log_seq t = parent_log_seq start' \<and>
                        log_seq t > log_seq start')
               consumed agentTerminals)"

text \<open>The body of the loop over \<open>starts\<close>, on the state \<open>(bars, orphans, consumedTerminals)\<close>.\<close>

definition pairStep ::
  "(string, Entry list) jsmap \<Rightarrow> DurationBar list \<times> OrphanStart list \<times> int set \<Rightarrow> Entry
     \<Rightarrow> DurationBar list \<times> OrphanStart list \<times> int set" where
  "pairStep terminalsByAgent st start' =
     (case st of (bs, os, consumed) \<Rightarrow>
        (case Map_get terminalsByAgent (agent start') of
           None \<Rightarrow> (bs, os @ [\<lparr>orphan_entry = start'\<rparr>], consumed)
         | Some agentTerminals \<Rightarrow>
             (case findMatch start' agentTerminals consumed of
                Some matched \<Rightarrow>
                  (bs @ [\<lparr>startEntry = start', endEntry = matched,
                          outcome = (if action matched \<in> SUCCESS_TERMINALS then success
                                     else failure)\<rparr>],
                   os, insert (log_seq matched) consumed)
              | None \<Rightarrow> (bs, os @ [\<lparr>orphan_entry = start'\<rparr>], consumed))))"

text \<open>Step 4 compares \<open>new Date(timestamp).getTime()\<close> values; \<open>getTime\<close> is that function
  of the timestamp string, \<open>None\<close> for \<open>NaN\<close>, and a comparison with \<open>NaN\<close> is false.\<close>

definition num_le :: "int option \<Rightarrow> int option \<Rightarrow> bool" where
  "num_le a b = (case (a, b) of (Some x, Some y) \<Rightarrow> x \<le> y | _ \<Rightarrow> False)"

definition findParentBar ::
  "(string \<Rightarrow> int option) \<Rightarrow> DurationBar list \<Rightarrow> Entry \<Rightarrow> DurationBar option" where
  "findParentBar getTime bs m =
     find (\<lambda>bar. agent (startEntry bar) = agent m \<and>
                 num_le (getTime (timestamp (startEntry bar))) (getTime (timestamp m)) \<and>
                 num_le (getTime (timestamp m)) (getTime (timestamp (endEntry bar))))
       bs"

definition pairEntries :: "(string \<Rightarrow> int option) \<Rightarrow> Entry list \<Rightarrow> PairingResult" where
  "pairEntries getTime entries =
     (case classify entries of (starts, terminals, markerEntries) \<Rightarrow>
        (case foldl (pairStep (groupByAgent terminals)) ([], [], {}) starts of
           (bs, os, consumed) \<Rightarrow>
             \<lparr>bars = bs, orphans = os,
              markers = map (\<lambda>m. \<lparr>marker_entry = m, parentBar = findParentBar getTime bs m\<rparr>)
                          markerEntries\<rparr>))"

text \<open>
  The match rule in words, for the comparison with \<open>pairEntries\<close>: \<open>terminals\<close> are all terminal
  entries in arrival order, a terminal counts as consumed when its \<open>log_seq\<close> is that of a
  terminal matched before, and \<open>has_task\<close> says when the primary match is attempted.
\<close>

definition primary_match :: "int set \<Rightarrow> Entry list \<Rightarrow> Entry \<Rightarrow> Entry option" where
  "primary_match consumed terminals s =
     find (\<lambda>t. log_seq t \<notin> consumed \<and> agent t = agent s \<and> task_id t = task_id s \<and>
                log_seq t > log_seq s) terminals"

definition secondary_match :: "int set \<Rightarrow> Entry list \<Rightarrow> Entry \<Rightarrow> Entry option" where
  "secondary_match consumed terminals s =
     find (\<lambda>t. log_seq t \<notin> consumed \<and> agent t = agent s \<and> phase t = phase s \<and>
                parent_log_seq t = parent_log_seq s \<and> log_seq t > log_seq s) terminals"

definition rule_match ::
  "(Entry \<Rightarrow> bool) \<Rightarrow> int set \<Rightarrow> Entry list \<Rightarrow> Entry \<Rightarrow> Entry option" where
  "rule_match has_task consumed terminals s =
     (case (if has_task s then primary_match consumed terminals s else None) of
        Some t \<Rightarrow> Some t
      | None \<Rightarrow> secondary_match consumed terminals s)"

text \<open>Every START in input order with its match, or \<open>None\<close> for an orphan.\<close>

fun rule_pairs ::
  "(Entry \<Rightarrow> bool) \<Rightarrow> Entry list \<Rightarrow> int set \<Rightarrow> Entry list \<Rightarrow> (Entry \<times> Entry option) list" where
  "rule_pairs has_task terminals consumed [] = []"
| "rule_pairs has_task terminals consumed (s # ss) =
     (case rule_match has_task consumed terminals s of
        None \<Rightarrow> (s, None) # rule_pairs has_task terminals consumed ss
      | Some t \<Rightarrow>
          (s, Some t) # rule_pairs has_task terminals (insert (log_seq t) consumed) ss)"

definition is_start :: "Entry \<Rightarrow> bool" where
  "is_start e = (action e = ''START'')"

definition is_terminal :: "Entry \<Rightarrow> bool" where
  "is_terminal e = (action e \<in> TERMINAL_ACTIONS)"

text \<open>The claim's condition for the primary match, and the one the code tests.\<close>

definition task_non_null :: "Entry \<Rightarrow> bool" where
  "task_non_null s = (task_id s \<noteq> None)"

definition task_non_empty :: "Entry \<Rightarrow> bool" where
  "task_non_empty s = (task_id s \<noteq> None \<and> task_id s \<noteq> Some [])"

definition mk_entry :: "int \<Rightarrow> string \<Rightarrow> string \<Rightarrow> string \<Rightarrow> string option \<Rightarrow> Entry" where
  "mk_entry n ag act ph task =
     \<lparr>log_seq = n, work_seq = ''001'', timestamp = ''2026-01-01T00:00:00Z'', agent = ag,
      action = act, phase = ph, parent_log_seq = None, requirements = [], task_id = task,
      details = [], files_created = [], files_modified = [], decisions = [], errors = [],
      duration_ms = None\<rparr>"

definition matched_of :: "(Entry \<times> Entry option) list \<Rightarrow> (Entry \<times> Entry) list" where
  "matched_of ps = concat (map (\<lambda>(s, m). case m of Some t \<Rightarrow> [(s, t)] | None \<Rightarrow> []) ps)"

definition unmatched_of :: "(Entry \<times> Entry option) list \<Rightarrow> Entry list" where
  "unmatched_of ps = concat (map (\<lambda>(s, m). case m of Some t \<Rightarrow> [] | None \<Rightarrow> [s]) ps)"

definition no_time :: "string \<Rightarrow> int option" where
  "no_time s = None"

definition ex_two_starts :: "Entry list" where
  "ex_two_starts =
     [mk_entry 1 ''dev'' ''START'' ''impl'' (Some ''T1''),
      mk_entry 2 ''dev'' ''START'' ''impl'' (Some ''T1''),
      mk_entry 3 ''dev'' ''COMPLETE'' ''impl'' (Some ''T1'')]"

definition ex_empty_task :: "Entry list" where
  "ex_empty_task =
     [mk_entry 1 ''dev'' ''START'' ''design'' (Some ''''),
      mk_entry 2 ''dev'' ''COMPLETE'' ''review'' (Some '''')]"

section \<open>The line parser (parser/log-parser.ts)\<close>

text \<open>
  The values \<open>JSON.parse\<close> returns. A number is an integer here, as the numbers of a log
  are; an object is the list of its properties, each key once. \<open>JSON.parse\<close> itself belongs
  to the JavaScript engine and is a parameter of the parser, \<open>JSON_parse\<close>: \<open>None\<close> stands
  for the \<open>SyntaxError\<close> it throws.
\<close>

datatype json =
    JNull
  | JBool bool
  | JNum int
  | JStr string
  | JArr "json list"
  | JObj "(string \<times> json) list"

datatype error = TypeError

type_synonym RawEntry = "(json, json) LogEntry"

definition REQUIRED_FIELDS :: "string list" where
  "REQUIRED_FIELDS = [''log_seq'', ''timestamp'', ''agent'', ''action'']"

definition trim :: "string \<Rightarrow> string" where
  "trim s = rev (dropWhile is_space (rev (dropWhile is_space s)))"

text \<open>\<open>content.split('\n')\<close>.\<close>

fun split_nl :: "string \<Rightarrow> string list" where
  "split_nl [] = [[]]"
| "split_nl (c # cs) =
     (if c = CHR 0x0A then [] # split_nl cs
      else case split_nl cs of
             l # ls \<Rightarrow> (c # l) # ls
           | [] \<Rightarrow> [[c]])"

text \<open>\<open>field in parsed\<close> for one of the required field names: a \<open>TypeError\<close> when
  \<open>parsed\<close> is not an object; an array has none of these names.\<close>

definition js_in :: "string \<Rightarrow> json \<Rightarrow> error + bool" where
  "js_in field parsed =
     (case parsed of
        JObj kvs \<Rightarrow> Inr (map_of kvs field \<noteq> None)
      | JArr xs \<Rightarrow> Inr False
      | _ \<Rightarrow> Inl TypeError)"

text \<open>\<open>parsed[field]\<close> and \<open>parsed.field\<close>; \<open>None\<close> is \<open>undefined\<close>.\<close>

definition js_get :: "json \<Rightarrow> string \<Rightarrow> json option" where
  "js_get parsed field = (case parsed of JObj kvs \<Rightarrow> map_of kvs field | _ \<Rightarrow> None)"

text \<open>The loop over \<open>REQUIRED_FIELDS\<close>: \<open>Inr False\<close> when it returns \<open>null\<close>.\<close>

fun required_present :: "json \<Rightarrow> string list \<Rightarrow> error + bool" where
  "required_present parsed [] = Inr True"
| "required_present parsed (field # more_fields) =
     (case js_in field parsed of
        Inl e \<Rightarrow> Inl e
      | Inr present \<Rightarrow>
          if \<not> present \<or> js_get parsed field = None \<or> js_get parsed field = Some JNull
          then Inr False
          else required_present parsed more_fields)"

text \<open>\<open>String(v)\<close>. In the string of an array \<open>null\<close> is the empty string.\<close>

fun join_comma :: "string list \<Rightarrow> string" where
  "join_comma [] = []"
| "join_comma [s] = s"
| "join_comma (s # t # ss) = s @ '','' @ join_comma (t # ss)"

fun js_String :: "json \<Rightarrow> string" where
  "js_String JNull = ''null''"
| "js_String (JBool b) = (if b then ''true'' else ''false'')"
| "js_String (JNum n) = String_int n"
| "js_String (JStr s) = s"
| "js_String (JArr xs) = join_comma (map (\<lambda>x. if x = JNull then [] else js_String x) xs)"
| "js_String (JObj kvs) = ''[object Object]''"

text \<open>\<open>v ?? d\<close> on a property that may be \<open>undefined\<close> or \<open>null\<close>.\<close>

definition nullish :: "json option \<Rightarrow> json option" where
  "nullish v = (case v of None \<Rightarrow> None | Some JNull \<Rightarrow> None | Some x \<Rightarrow> Some x)"

definition string_or_empty :: "json option \<Rightarrow> string" where
  "string_or_empty v = (case nullish v of None \<Rightarrow> [] | Some x \<Rightarrow> js_String x)"

text \<open>\<open>Array.isArray(v) ? v : []\<close>.\<close>

definition array_or_empty :: "json option \<Rightarrow> json list" where
  "array_or_empty v = (case v of Some (JArr xs) \<Rightarrow> xs | _ \<Rightarrow> [])"

text \<open>The entry that \<open>parseLine\<close> builds once the required fields are there; then
  \<open>log_seq\<close> is present and not \<open>null\<close>.\<close>

definition build_entry :: "json \<Rightarrow> RawEntry" where
  "build_entry parsed =
     \<lparr>log_seq = (case js_get parsed ''log_seq'' of Some v \<Rightarrow> v | None \<Rightarrow> JNull),
      work_seq = string_or_empty (js_get parsed ''work_seq''),
      timestamp = string_or_empty (js_get parsed ''timestamp''),
      agent = string_or_empty (js_get parsed ''agent''),
      action = string_or_empty (js_get parsed ''action''),
      phase = string_or_empty (js_get parsed ''phase''),
      parent_log_seq = nullish (js_get parsed ''parent_log_seq''),
      requirements = array_or_empty (js_get parsed ''requirements''),
      task_id = nullish (js_get parsed ''task_id''),
      details = string_or_empty (js_get parsed ''details''),
      files_created = array_or_empty (js_get parsed ''files_created''),
      files_modified = array_or_empty (js_get parsed ''files_modified''),
      decisions = array_or_empty (js_get parsed ''decisions''),
      errors = array_or_empty (js_get parsed ''errors''),
      duration_ms = nullish (js_get parsed ''duration_ms'')\<rparr>"

text \<open>\<open>parseLine\<close>: \<open>Inr None\<close> is the result \<open>null\<close>, \<open>Inl TypeError\<close> the exception that
  leaves the function.\<close>

definition parseLine :: "(string \<Rightarrow> json option) \<Rightarrow> string \<Rightarrow> error + RawEntry option" where
  "parseLine JSON_parse line =
     (if trim line = [] then Inr None
      else case JSON_parse line of
             None \<Rightarrow> Inr None
           | Some parsed \<Rightarrow>
               (case required_present parsed REQUIRED_FIELDS of
                  Inl e \<Rightarrow> Inl e
                | Inr False \<Rightarrow> Inr None
                | Inr True \<Rightarrow> Inr (Some (build_entry parsed))))"

text \<open>\<open>ParseResult\<close> without \<open>parseTimeMs\<close>, which is a reading of the clock.\<close>

record ParseResult =
  entries :: "RawEntry list"
  skippedLines :: nat

text \<open>The loop of \<open>parseLogContent\<close> over the lines, with its two variables.\<close>

fun parse_lines ::
  "(string \<Rightarrow> json option) \<Rightarrow> string list \<Rightarrow> RawEntry list \<Rightarrow> nat \<Rightarrow> error + ParseResult" where
  "parse_lines JSON_parse [] es skipped = Inr \<lparr>entries = es, skippedLines = skipped\<rparr>"
| "parse_lines JSON_parse (line # lines) es skipped =
     (if trim line = [] then parse_lines JSON_parse lines es skipped
      else case parseLine JSON_parse line of
             Inl e \<Rightarrow> Inl e
           | Inr (Some entry) \<Rightarrow> parse_lines JSON_parse lines (es @ [entry]) skipped
           | Inr None \<Rightarrow> parse_lines JSON_parse lines es (skipped + 1))"

definition parseLogContent :: "(string \<Rightarrow> json option) \<Rightarrow> string \<Rightarrow> error + ParseResult" where
  "parseLogContent JSON_parse content = parse_lines JSON_parse (split_nl content) [] 0"

text \<open>
  \<open>entry.log_seq > lastLogSeq\<close>, where \<open>log_seq\<close> is whatever the line held: both sides
  are converted to numbers and a comparison with \<open>NaN\<close> is false. \<open>StringToNumber\<close> is the
  engine's conversion of a string, a parameter; \<open>None\<close> is \<open>NaN\<close>.
\<close>

definition ToNumber :: "(string \<Rightarrow> int option) \<Rightarrow> json \<Rightarrow> int option" where
  "ToNumber StringToNumber v =
     (case v of
        JNum n \<Rightarrow> Some n
      | JBool b \<Rightarrow> Some (if b then 1 else 0)
      | JNull \<Rightarrow> Some 0
      | _ \<Rightarrow> StringToNumber (js_String v))"

definition js_gt :: "(string \<Rightarrow> int option) \<Rightarrow> json \<Rightarrow> int \<Rightarrow> bool" where
  "js_gt StringToNumber v w =
     (case ToNumber StringToNumber v of None \<Rightarrow> False | Some n \<Rightarrow> n > w)"

fun parse_lines_since ::
  "(string \<Rightarrow> json option) \<Rightarrow> (string \<Rightarrow> int option) \<Rightarrow> int \<Rightarrow> string list \<Rightarrow>
     RawEntry list \<Rightarrow> nat \<Rightarrow> error + ParseResult" where
  "parse_lines_since JSON_parse StringToNumber lastLogSeq [] es skipped =
     Inr \<lparr>entries = es, skippedLines = skipped\<rparr>"
| "parse_lines_since JSON_parse StringToNumber lastLogSeq (line # lines) es skipped =
     (if trim line = [] then parse_lines_since JSON_parse StringToNumber lastLogSeq lines es skipped
      else case parseLine JSON_parse line of
             Inl e \<Rightarrow> Inl e
           | Inr (Some entry) \<Rightarrow>
               if js_gt StringToNumber (log_seq entry) lastLogSeq
               then parse_lines_since JSON_parse StringToNumber lastLogSeq lines (es @ [entry]) skipped
               else parse_lines_since JSON_parse StringToNumber lastLogSeq lines es skipped
           | Inr None \<Rightarrow>
               parse_lines_since JSON_parse StringToNumber lastLogSeq lines es (skipped + 1))"

definition parseIncrementalContent ::
  "(string \<Rightarrow> json option) \<Rightarrow> (string \<Rightarrow> int option) \<Rightarrow> string \<Rightarrow> int \<Rightarrow> error + ParseResult" where
  "parseIncrementalContent JSON_parse StringToNumber content lastLogSeq =
     parse_lines_since JSON_parse StringToNumber lastLogSeq (split_nl content) [] 0"

text \<open>The watermark test of \<open>parseIncrementalContent\<close>.\<close>

definition above :: "(string \<Rightarrow> int option) \<Rightarrow> int \<Rightarrow> RawEntry \<Rightarrow> bool" where
  "above StringToNumber w e = js_gt StringToNumber (log_seq e) w"

text \<open>The non-blank lines of a content, and what \<open>JSON.parse\<close> returns on the two lines of
  the example below.\<close>

definition non_blank_lines :: "string \<Rightarrow> string list" where
  "non_blank_lines content = filter (\<lambda>line. trim line \<noteq> []) (split_nl content)"

definition ex_line :: string where
  \<open>ex_line = ''{"log_seq":1,"timestamp":"t","agent":"a","action":"START"}''\<close>

definition ex_JSON_parse :: "string \<Rightarrow> json option" where
  "ex_JSON_parse s =
     (if s = ''null'' then Some JNull
      else if s = ex_line
      then Some (JObj [(''log_seq'', JNum 1), (''timestamp'', JStr ''t''),
                       (''agent'', JStr ''a''), (''action'', JStr ''START'')])
      else None)"

section \<open>Canonical phase order (config/constants.ts)\<close>

definition CANONICAL_PHASE_ORDER :: "string list" where
  "CANONICAL_PHASE_ORDER =
     [''requirements'', ''architecture'', ''design'', ''planning'', ''implementation'',
      ''review'', ''testing'', ''documentation'', ''deployment'']"

text \<open>\<open>xs.indexOf(x)\<close>: the first position of \<open>x\<close>, or \<open>-1\<close>.\<close>

fun indexOf :: "'a \<Rightarrow> 'a list \<Rightarrow> int" where
  "indexOf x [] = - 1"
| "indexOf x (y # ys) =
     (if x = y then 0 else (let i = indexOf x ys in if i < 0 then - 1 else i + 1))"

text \<open>The comparator of \<open>sortPhases\<close>; \<open>localeCompare\<close> belongs to the engine and is a
  parameter.\<close>

definition phase_compare :: "(string \<Rightarrow> string \<Rightarrow> int) \<Rightarrow> string \<Rightarrow> string \<Rightarrow> int" where
  "phase_compare localeCompare a b =
     (let ai = indexOf a CANONICAL_PHASE_ORDER; bi = indexOf b CANONICAL_PHASE_ORDER in
      if ai \<ge> 0 \<and> bi \<ge> 0 then ai - bi
      else if ai \<ge> 0 then - 1
      else if bi \<ge> 0 then 1
      else localeCompare a b)"

text \<open>\<open>Array.prototype.sort\<close> is stable; for a comparator that orders its arguments
  consistently its result is the stable sorted arrangement, computed here by insertion.\<close>

fun insert_sorted :: "('a \<Rightarrow> 'a \<Rightarrow> int) \<Rightarrow> 'a \<Rightarrow> 'a list \<Rightarrow> 'a list" where
  "insert_sorted cmp x [] = [x]"
| "insert_sorted cmp x (y # ys) =
     (if cmp x y < 0 then x # y # ys else y # insert_sorted cmp x ys)"

definition Array_sort :: "('a \<Rightarrow> 'a \<Rightarrow> int) \<Rightarrow> 'a list \<Rightarrow> 'a list" where
  "Array_sort cmp xs = foldl (\<lambda>acc x. insert_sorted cmp x acc) [] xs"

definition sortPhases :: "(string \<Rightarrow> string \<Rightarrow> int) \<Rightarrow> string list \<Rightarrow> string list" where
  "sortPhases localeCompare phases = Array_sort (phase_compare localeCompare) phases"

section \<open>Phase statistics (components/views/DashboardView/DashboardView.tsx)\<close>

text \<open>\<open>PhaseStats\<close>. The fields \<open>total\<close> and \<open>errors\<close> are \<open>total'\<close> and \<open>errors'\<close> here.\<close>

record PhaseStats =
  name :: string
  total' :: nat
  completed :: nat
  inProgress :: nat
  failures :: nat
  errors' :: nat
  percentage :: int

text \<open>The two action sets of this module; its \<open>TERMINAL_ACTIONS\<close> holds the three success
  actions only.\<close>

definition TERMINAL_ACTIONS' :: "string set" where
  "TERMINAL_ACTIONS' = {''COMPLETE'', ''REVIEW_PASS'', ''TEST_PASS''}"

definition FAILURE_ACTIONS :: "string set" where
  "FAILURE_ACTIONS = {''REVIEW_FAIL'', ''TEST_FAIL'', ''ERROR''}"

text \<open>The key of a work unit, \<^verbatim>\<open>`${e.agent}|${e.task_id ?? e.log_seq}`\<close>.\<close>

definition workUnitKey :: "Entry \<Rightarrow> string" where
  "workUnitKey e =
     agent e @ ''|'' @ (case task_id e of Some t \<Rightarrow> t | None \<Rightarrow> String_int (log_seq e))"

text \<open>The loop that fills \<open>phaseMap\<close>, and the loop that fills \<open>workUnits\<close>.\<close>

definition phaseMap_of :: "Entry list \<Rightarrow> (string, Entry list) jsmap" where
  "phaseMap_of es = foldl (\<lambda>m e. if phase e = [] then m else push_at (phase e) e m) [] es"

definition workUnits_of :: "Entry list \<Rightarrow> (string, Entry list) jsmap" where
  "workUnits_of phaseEntries = foldl (\<lambda>m e. push_at (workUnitKey e) e m) [] phaseEntries"

text \<open>\<open>unitEntries.reduce((prev, curr) => curr.log_seq > prev.log_seq ? curr : prev)\<close>;
  \<open>None\<close> is the \<open>TypeError\<close> on an empty array.\<close>

definition reduce_latest :: "Entry list \<Rightarrow> Entry option" where
  "reduce_latest unitEntries =
     (case unitEntries of
        [] \<Rightarrow> None
      | x # xs \<Rightarrow>
          Some (foldl (\<lambda>prev curr. if log_seq curr > log_seq prev then curr else prev) x xs))"

text \<open>The body of the loop over the work units, on \<open>(total, completed, failures)\<close>. A unit
  that holds a START is not empty, so \<open>reduce\<close> does not throw there.\<close>

definition countUnit :: "nat \<times> nat \<times> nat \<Rightarrow> Entry list \<Rightarrow> nat \<times> nat \<times> nat" where
  "countUnit st unitEntries =
     (case st of (tot, cmpl, fails) \<Rightarrow>
        if \<not> list_ex (\<lambda>e. action e = ''START'') unitEntries then (tot, cmpl, fails)
        else case reduce_latest unitEntries of
               None \<Rightarrow> (tot + 1, cmpl, fails)
             | Some latest \<Rightarrow>
                 if action latest \<in> TERMINAL_ACTIONS' then (tot + 1, cmpl + 1, fails)
                 else if action latest \<in> FAILURE_ACTIONS then (tot + 1, cmpl, fails + 1)
                 else (tot + 1, cmpl, fails))"

text \<open>
  \<open>Math.round\<close> rounds to the nearest integer, a tie upwards. The quotient and the product
  of \<open>(completed / total) * 100\<close> are binary64 operations: each rounds its exact result, and
  \<open>fl\<close> is that rounding, a parameter.
\<close>

definition Math_round :: "rat \<Rightarrow> int" where
  "Math_round x = \<lfloor>x + 1 / 2\<rfloor>"

definition percentage_of :: "(rat \<Rightarrow> rat) \<Rightarrow> nat \<Rightarrow> nat \<Rightarrow> int" where
  "percentage_of fl cmpl tot =
     (if tot > 0 then min 100 (Math_round (fl (fl (of_nat cmpl / of_nat tot) * 100))) else 0)"

definition phaseStats :: "(rat \<Rightarrow> rat) \<Rightarrow> string \<Rightarrow> Entry list \<Rightarrow> PhaseStats" where
  "phaseStats fl nm phaseEntries =
     (case foldl countUnit (0, 0, 0) (map snd (workUnits_of phaseEntries)) of
        (tot, cmpl, fails) \<Rightarrow>
          \<lparr>name = nm, total' = tot, completed = cmpl,
           inProgress = nat (max 0 (int tot - int cmpl - int fails)),
           failures = fails, errors' = 0,
           percentage = percentage_of fl cmpl tot\<rparr>)"

definition computePhaseStats ::
  "(string \<Rightarrow> string \<Rightarrow> int) \<Rightarrow> (rat \<Rightarrow> rat) \<Rightarrow> Entry list \<Rightarrow> PhaseStats list" where
  "computePhaseStats localeCompare fl es =
     (let phaseMap = phaseMap_of es;
          sortedPhaseNames = sortPhases localeCompare (map fst phaseMap)
      in map (\<lambda>nm. phaseStats fl nm (case Map_get phaseMap nm of Some pes \<Rightarrow> pes | None \<Rightarrow> []))
           sortedPhaseNames)"

text \<open>
  The counting in words, for the comparison with \<open>computePhaseStats\<close>: the events of a
  phase, the phases in order of first appearance, the work unit of a key, the latest event
  of a unit (the first one whose \<open>log_seq\<close> no other exceeds), and the keys of the units
  that are counted.
\<close>

definition phase_events :: "string \<Rightarrow> Entry list \<Rightarrow> Entry list" where
  "phase_events nm es = filter (\<lambda>e. phase e \<noteq> [] \<and> phase e = nm) es"

definition first_occurrences :: "'a list \<Rightarrow> 'a list" where
  "first_occurrences xs = foldl (\<lambda>acc x. Set_add x acc) [] xs"

definition phase_names :: "Entry list \<Rightarrow> string list" where
  "phase_names es = first_occurrences (filter (\<lambda>p. p \<noteq> []) (map phase es))"

definition work_unit :: "Entry list \<Rightarrow> string \<Rightarrow> Entry list" where
  "work_unit es k = filter (\<lambda>e. workUnitKey e = k) es"

definition latest_event :: "Entry list \<Rightarrow> Entry option" where
  "latest_event u = find (\<lambda>e. list_all (\<lambda>x. log_seq x \<le> log_seq e) u) u"

definition latest_action_in :: "string set \<Rightarrow> Entry list \<Rightarrow> bool" where
  "latest_action_in A u = (case latest_event u of None \<Rightarrow> False | Some e \<Rightarrow> action e \<in> A)"

definition counted_units :: "Entry list \<Rightarrow> string set" where
  "counted_units es = {k \<in> workUnitKey ` set es. list_ex is_start (work_unit es k)}"

text \<open>For the examples: the comparison of strings by code units in place of the locale's,
  and the exact arithmetic in place of the binary64 rounding.\<close>

fun ex_localeCompare :: "string \<Rightarrow> string \<Rightarrow> int" where
  "ex_localeCompare [] [] = 0"
| "ex_localeCompare [] (y # ys) = - 1"
| "ex_localeCompare (x # xs) [] = 1"
| "ex_localeCompare (x # xs) (y # ys) =
     (if (of_char x :: nat) < of_char y then - 1
      else if (of_char y :: nat) < of_char x then 1
      else ex_localeCompare xs ys)"

definition exact :: "rat \<Rightarrow> rat" where
  "exact x = x"

definition ex_phase_entries :: "Entry list" where
  "ex_phase_entries =
     [mk_entry 1 ''dev'' ''START'' ''implementation'' (Some ''T1''),
      mk_entry 2 ''dev'' ''COMPLETE'' ''implementation'' (Some ''T1''),
      mk_entry 3 ''dev'' ''START'' ''implementation'' (Some ''T2''),
      mk_entry 4 ''dev'' ''START'' ''implementation'' (Some ''T3''),
      mk_entry 5 ''dev'' ''ERROR'' ''implementation'' (Some ''T3'')]"

text \<open>The map that the grouping loops build: one pair for each key, in order of first
  appearance, with the elements of that key in input order.\<close>

definition grouped :: "('a \<Rightarrow> 'k) \<Rightarrow> 'a list \<Rightarrow> ('k, 'a list) jsmap" where
  "grouped key es =
     map (\<lambda>k. (k, filter (\<lambda>e. key e = k) es)) (first_occurrences (map key es))"

section \<open>The shape of a requirement range\<close>

text \<open>
  The shape \<open><prefix><digits> through <prefix'><digits>\<close> in words, with all its parts
  named: the input is \<open>g d1 ws t ws' g' d2\<close>, where \<open>g\<close> is the prefix (not empty, no line
  terminator), \<open>d1\<close> and \<open>d2\<close> are the digit strings, \<open>ws\<close> and \<open>ws'\<close> are white space,
  \<open>t\<close> is \<open>through\<close> in any letter case and \<open>g'\<close> is the prefix again, up to letter case.
\<close>

definition ci_eq :: "string \<Rightarrow> string \<Rightarrow> bool" where
  "ci_eq a b = (map canonicalize a = map canonicalize b)"

definition range_shape ::
  "string \<Rightarrow> string \<Rightarrow> string \<Rightarrow> string \<Rightarrow> string \<Rightarrow> string \<Rightarrow> string \<Rightarrow> string \<Rightarrow> bool" where
  "range_shape s g d1 ws t ws' g' d2 =
     (s = g @ d1 @ ws @ t @ ws' @ g' @ d2 \<and>
      g \<noteq> [] \<and> list_all is_dot g \<and>
      d1 \<noteq> [] \<and> list_all is_digit d1 \<and>
      ws \<noteq> [] \<and> list_all is_space ws \<and>
      ci_eq t ''through'' \<and>
      ws' \<noteq> [] \<and> list_all is_space ws' \<and>
      ci_eq g' g \<and>
      d2 \<noteq> [] \<and> list_all is_digit d2)"

section \<open>Theorems: the index builder\<close>

text \<open>
  Claim C1. Incremental index equivalence: for every event list split into two parts
  \<open>A\<close> and \<open>B\<close>, building the indices of \<open>A\<close> and then updating them incrementally with \<open>B\<close>
  gives the same structures as building the indices of \<open>A @ B\<close>: the same entry-by-id,
  agent, phase, work-seq, file statistics, requirement and parent-children maps, with the
  same keys in the same order and the same values.
\<close>

theorem incremental_index_equivalence:
  "updateIndicesIncremental (buildIndices A) B = buildIndices (A @ B)"
  by (simp add: updateIndicesIncremental_def buildIndices_def)

section \<open>Theorems: the file watcher\<close>

lemma watcher_inv_step: "watcher_inv w \<Longrightarrow> watcher_inv (step w e)"
  by (cases e)
     (auto simp: watcher_inv_def start_def stop_def tick_def pollNow_def poll_def poll_catch_def
        LIVE_TAIL_MAX_FAILURES_def Let_def split: PollOutcome.splits)

lemma watcher_inv_run: "watcher_inv (run es)"
  unfolding run_def
  by (induction es rule: rev_induct)
     (auto simp: watcher_inv_step, simp add: watcher_inv_def newFileWatcher_def)

lemma poll_failed_cases:
  assumes "acquisition_failed out" "reReadFn w" "callbacks w"
  shows "poll out w = poll_catch w"
  using assms by (auto simp: acquisition_failed_def poll_def)

text \<open>
  The polls whose handler returns. Let \<open>w\<close> be any state the watcher reaches from a new
  \<open>FileWatcher\<close> by calls of \<open>start\<close>, \<open>stop\<close>, \<open>pollNow\<close> and timer ticks. A poll that
  delivers a content to a handler that returns leaves the consecutive-failure counter at
  zero. If the timer of \<open>w\<close> is running, then after such a poll the first and second poll
  whose read fails leave it active with the counter at 1 and 2, and the third sets
  \<open>isActive\<close> to false, clears the timer and calls \<open>onDisabled\<close>; from any such \<open>w\<close>, three
  polls in a row whose read fails end with the watcher disabled and \<open>onDisabled\<close> called
  once, as the last call. While no timer is set a tick does nothing, and \<open>start\<close> makes the
  watcher active again with the counter at zero.
\<close>

lemma acquisition_outcomes:
  assumes "w = run es"
  shows "consecutiveFailures (poll (Delivered c) w) = 0 \<and>
         (intervalId w \<noteq> None \<longrightarrow>
            (let w0 = tick (Delivered c) w;
                 w1 = tick ReadNull w0; w2 = tick ReadRejects w1; w3 = tick ReadNull w2
             in isActive w0 \<and> consecutiveFailures w0 = 0 \<and>
                isActive w1 \<and> consecutiveFailures w1 = 1 \<and>
                isActive w2 \<and> consecutiveFailures w2 = 2 \<and>
                \<not> isActive w3 \<and> intervalId w3 = None \<and>
                calls w3 = calls w0 @ [OnError 1, OnError 2, OnError 3, OnDisabled])) \<and>
         (intervalId w \<noteq> None \<and> acquisition_failed f1 \<and> acquisition_failed f2 \<and>
          acquisition_failed f3 \<longrightarrow>
            (let w3 = tick f3 (tick f2 (tick f1 w))
             in \<not> isActive w3 \<and> intervalId w3 = None \<and>
                (\<exists>cs. calls w3 = calls w @ cs @ [OnDisabled] \<and> OnDisabled \<notin> set cs))) \<and>
         (intervalId w = None \<longrightarrow> \<not> isActive w \<and> tick out w = w) \<and>
         (let w' = start h w
          in isActive w' \<and> intervalId w' = Some h \<and> consecutiveFailures w' = 0)"
proof -
  have inv: "watcher_inv w" using assms watcher_inv_run by simp
  have p1: "consecutiveFailures (poll (Delivered c) w) = 0"
    using inv by (auto simp: watcher_inv_def poll_def)
  have p2: "intervalId w \<noteq> None \<longrightarrow>
            (let w0 = tick (Delivered c) w;
                 w1 = tick ReadNull w0; w2 = tick ReadRejects w1; w3 = tick ReadNull w2
             in isActive w0 \<and> consecutiveFailures w0 = 0 \<and>
                isActive w1 \<and> consecutiveFailures w1 = 1 \<and>
                isActive w2 \<and> consecutiveFailures w2 = 2 \<and>
                \<not> isActive w3 \<and> intervalId w3 = None \<and>
                calls w3 = calls w0 @ [OnError 1, OnError 2, OnError 3, OnDisabled])"
    using inv
    by (auto simp: watcher_inv_def tick_def poll_def poll_catch_def stop_def
          LIVE_TAIL_MAX_FAILURES_def Let_def)
  have p3: "intervalId w \<noteq> None \<and> acquisition_failed f1 \<and> acquisition_failed f2 \<and>
          acquisition_failed f3 \<longrightarrow>
            (let w3 = tick f3 (tick f2 (tick f1 w))
             in \<not> isActive w3 \<and> intervalId w3 = None \<and>
                (\<exists>cs. calls w3 = calls w @ cs @ [OnDisabled] \<and> OnDisabled \<notin> set cs))"
  proof (intro impI, elim conjE)
    assume a: "intervalId w \<noteq> None" and f: "acquisition_failed f1" "acquisition_failed f2"
      "acquisition_failed f3"
    from inv a have base: "isActive w" "reReadFn w" "callbacks w" "consecutiveFailures w < 3"
      by (auto simp: watcher_inv_def LIVE_TAIL_MAX_FAILURES_def)
    then consider "consecutiveFailures w = 0" | "consecutiveFailures w = 1"
      | "consecutiveFailures w = 2" by linarith
    then show "let w3 = tick f3 (tick f2 (tick f1 w))
             in \<not> isActive w3 \<and> intervalId w3 = None \<and>
                (\<exists>cs. calls w3 = calls w @ cs @ [OnDisabled] \<and> OnDisabled \<notin> set cs)"
    proof cases
      case 1
      with a base f show ?thesis
        by (simp add: tick_def poll_failed_cases poll_catch_def stop_def
              LIVE_TAIL_MAX_FAILURES_def Let_def)
    next
      case 2
      with a base f show ?thesis
        by (simp add: tick_def poll_failed_cases poll_catch_def stop_def
              LIVE_TAIL_MAX_FAILURES_def Let_def)
    next
      case 3
      with a base f show ?thesis
        by (simp add: tick_def poll_failed_cases poll_catch_def stop_def
              LIVE_TAIL_MAX_FAILURES_def Let_def)
    qed
  qed
  have p4: "intervalId w = None \<longrightarrow> \<not> isActive w \<and> tick out w = w"
    using inv by (auto simp: watcher_inv_def tick_def)
  have p5: "let w' = start h w
          in isActive w' \<and> intervalId w' = Some h \<and> consecutiveFailures w' = 0"
    by (simp add: start_def stop_def Let_def)
  from p1 p2 p3 p4 p5 show ?thesis by blast
qed


text \<open>The same at a watcher that was started and has failed once, and at one that was
  started and has failed three times.\<close>

lemmas watcher_defs = run_def newFileWatcher_def start_def stop_def tick_def pollNow_def poll_def
  poll_catch_def LIVE_TAIL_MAX_FAILURES_def Let_def

lemma acquisition_outcomes_example:
  "intervalId (run [Start 7, Tick ReadNull]) = Some 7 \<and>
   consecutiveFailures (run [Start 7, Tick ReadNull]) = 1 \<and>
   consecutiveFailures (poll (Delivered ''x'') (run [Start 7, Tick ReadNull])) = 0 \<and>
   \<not> isActive (tick ReadNull (tick ReadRejects (tick ReadNull (run [Start 7, Tick ReadNull])))) \<and>
   intervalId (run [Start 7, Tick ReadNull, Tick ReadNull, Tick ReadNull]) = None \<and>
   tick (Delivered ''x'') (run [Start 7, Tick ReadNull, Tick ReadNull, Tick ReadNull]) =
     run [Start 7, Tick ReadNull, Tick ReadNull, Tick ReadNull]"
proof -
  have a: "intervalId (run [Start 7, Tick ReadNull]) = Some 7"
    and a': "consecutiveFailures (run [Start 7, Tick ReadNull]) = 1"
    by (simp_all add: watcher_defs)
  have d: "intervalId (run [Start 7, Tick ReadNull, Tick ReadNull, Tick ReadNull]) = None"
    by (simp add: watcher_defs)
  have f: "acquisition_failed ReadNull" "acquisition_failed ReadRejects"
    by (simp_all add: acquisition_failed_def)
  note t1 = acquisition_outcomes [where es = "[Start 7, Tick ReadNull]" and c = "''x''"
      and ?f1.0 = ReadNull and ?f2.0 = ReadRejects and ?f3.0 = ReadNull
      and out = "Delivered ''x''" and h = 0, OF refl]
  note t2 = acquisition_outcomes [where es = "[Start 7, Tick ReadNull, Tick ReadNull, Tick ReadNull]"
      and c = "''x''" and ?f1.0 = ReadNull and ?f2.0 = ReadRejects and ?f3.0 = ReadNull
      and out = "Delivered ''x''" and h = 0, OF refl]
  from t1 a f have "\<not> isActive (tick ReadNull (tick ReadRejects (tick ReadNull (run [Start 7, Tick ReadNull]))))"
    by (simp add: Let_def)
  moreover from t1 have "consecutiveFailures (poll (Delivered ''x'') (run [Start 7, Tick ReadNull])) = 0"
    by blast
  moreover from t2 d have "tick (Delivered ''x'') (run [Start 7, Tick ReadNull, Tick ReadNull, Tick ReadNull]) =
     run [Start 7, Tick ReadNull, Tick ReadNull, Tick ReadNull]" by blast
  ultimately show ?thesis using a a' d by blast
qed

text \<open>
  The polls whose handler throws. \<open>onNewContent\<close> is called inside the \<open>try\<close> block, after
  the counter is set to zero: when it throws, the \<open>catch\<close> block counts the poll as a
  failure, the first one. While the timer runs, such a poll leaves the watcher active with
  the counter at 1, whatever the counter was, and so does any number of them in a row.
\<close>

lemma handler_throw_tick:
  assumes "w = run es" "intervalId w \<noteq> None"
  shows "tick (HandlerThrows c) w =
           w\<lparr>consecutiveFailures := 1, calls := calls w @ [OnNewContent c, OnError 1]\<rparr>"
proof -
  from assms watcher_inv_run [of es] have "reReadFn w" "callbacks w"
    by (auto simp: watcher_inv_def)
  with assms(2) show ?thesis
    by (auto simp: tick_def poll_def poll_catch_def LIVE_TAIL_MAX_FAILURES_def Let_def)
qed

lemma handler_throws_run:
  assumes "intervalId (run es) \<noteq> None"
  shows "run (es @ map (\<lambda>c. Tick (HandlerThrows c)) cs) =
           (if cs = [] then run es
            else (run es)\<lparr>consecutiveFailures := 1,
                   calls := calls (run es) @ concat (map (\<lambda>c. [OnNewContent c, OnError 1]) cs)\<rparr>)"
proof (induction cs rule: rev_induct)
  case Nil
  show ?case by simp
next
  case (snoc c cs)
  let ?es = "es @ map (\<lambda>c. Tick (HandlerThrows c)) cs"
  from snoc assms have running: "intervalId (run ?es) \<noteq> None"
    by (simp split: if_splits)
  have "run (es @ map (\<lambda>c. Tick (HandlerThrows c)) (cs @ [c])) =
        tick (HandlerThrows c) (run ?es)"
    by (simp add: run_def)
  also have "\<dots> = (run ?es)\<lparr>consecutiveFailures := 1,
                       calls := calls (run ?es) @ [OnNewContent c, OnError 1]\<rparr>"
    by (rule handler_throw_tick [OF refl running])
  finally show ?case unfolding snoc by simp
qed

lemma handler_throws_never_disable:
  assumes "intervalId (run es) \<noteq> None"
  shows "isActive (run (es @ map (\<lambda>c. Tick (HandlerThrows c)) cs)) \<and>
         intervalId (run (es @ map (\<lambda>c. Tick (HandlerThrows c)) cs)) = intervalId (run es) \<and>
         OnDisabled \<notin> set (concat (map (\<lambda>c. [OnNewContent c, OnError 1]) cs))"
proof -
  from assms watcher_inv_run [of es] have "isActive (run es)" by (auto simp: watcher_inv_def)
  then show ?thesis unfolding handler_throws_run [OF assms] by auto
qed

section \<open>Theorems: event pairing\<close>

lemma Map_get_Map_set: "Map_get (Map_set k v m) k' = (if k' = k then Some v else Map_get m k')"
  by (induction m) (auto simp: Map_get_def)

lemma START_not_terminal: "''START'' \<notin> TERMINAL_ACTIONS"
  by (simp add: TERMINAL_ACTIONS_def)

lemma classify_loop:
  "foldl (\<lambda>(ss, ts, ms) e.
              if action e = ''START'' then (ss @ [e], ts, ms)
              else if action e \<in> TERMINAL_ACTIONS then (ss, ts @ [e], ms)
              else if action e \<in> MARKER_ACTIONS then (ss, ts, ms @ [e])
              else (ss, ts, ms)) (ss, ts, ms) es =
   (ss @ filter is_start es, ts @ filter is_terminal es,
    ms @ filter (\<lambda>e. \<not> is_start e \<and> \<not> is_terminal e \<and> action e \<in> MARKER_ACTIONS) es)"
  using START_not_terminal
  by (induction es arbitrary: ss ts ms) (auto simp: is_start_def is_terminal_def)

lemma classify_eq:
  "classify es =
     (filter is_start es, filter is_terminal es,
      filter (\<lambda>e. \<not> is_start e \<and> \<not> is_terminal e \<and> action e \<in> MARKER_ACTIONS) es)"
  unfolding classify_def by (simp add: classify_loop)

lemma groupByAgent_get:
  "Map_get (groupByAgent ts) a =
     (if filter (\<lambda>t. agent t = a) ts = [] then None else Some (filter (\<lambda>t. agent t = a) ts))"
proof (induction ts rule: rev_induct)
  case Nil
  show ?case by (simp add: groupByAgent_def Map_get_def)
next
  case (snoc t ts)
  have step: "groupByAgent (ts @ [t]) =
      (case Map_get (groupByAgent ts) (agent t) of
         Some list \<Rightarrow> Map_set (agent t) (list @ [t]) (groupByAgent ts)
       | None \<Rightarrow> Map_set (agent t) [t] (groupByAgent ts))"
    unfolding groupByAgent_def by simp
  show ?case
    unfolding step using snoc
    by (auto simp: Map_get_Map_set split: option.splits if_splits)
qed

lemma scan_find: "scan ok consumed ts = find (\<lambda>t. log_seq t \<notin> consumed \<and> ok t) ts"
  by (induction ts) auto

lemma find_filter: "find P (filter Q xs) = find (\<lambda>x. Q x \<and> P x) xs"
  by (induction xs) auto

lemma find_cong_pred: "(\<And>x. P x = Q x) \<Longrightarrow> find P xs = find Q xs"
  by (induction xs) auto

lemma truthy_task: "truthy (task_id s) = task_non_empty s"
  by (auto simp: truthy_def task_non_empty_def split: option.splits)

lemma findMatch_rule:
  "findMatch s (filter (\<lambda>t. agent t = agent s) ts) consumed = rule_match task_non_empty consumed ts s"
proof -
  have p: "scan (\<lambda>t. task_id t = task_id s \<and> log_seq t > log_seq s) consumed
             (filter (\<lambda>t. agent t = agent s) ts) = primary_match consumed ts s"
    unfolding scan_find find_filter primary_match_def by (rule find_cong_pred) auto
  have q: "scan (\<lambda>t. phase t = phase s \<and> parent_log_seq t = parent_log_seq s \<and>
                        log_seq t > log_seq s) consumed
             (filter (\<lambda>t. agent t = agent s) ts) = secondary_match consumed ts s"
    unfolding scan_find find_filter secondary_match_def by (rule find_cong_pred) auto
  show ?thesis
    unfolding findMatch_def rule_match_def Let_def p q truthy_task ..
qed

lemma find_None_no_agent:
  assumes "filter (\<lambda>t. agent t = a) ts = []"
  shows "find (\<lambda>t. P t \<and> agent t = a \<and> Q t) ts = None"
proof -
  from assms have "\<forall>t \<in> set ts. agent t \<noteq> a" by (simp add: filter_empty_conv)
  then show ?thesis by (auto simp: find_None_iff)
qed

lemma rule_match_no_agent:
  assumes "filter (\<lambda>t. agent t = agent s) ts = []"
  shows "rule_match ht consumed ts s = None"
  using find_None_no_agent [OF assms]
  by (simp add: rule_match_def primary_match_def secondary_match_def)

lemma pairStep_rule:
  "pairStep (groupByAgent ts) (bs, os, consumed) s =
     (case rule_match task_non_empty consumed ts s of
        None \<Rightarrow> (bs, os @ [\<lparr>orphan_entry = s\<rparr>], consumed)
      | Some t \<Rightarrow>
          (bs @ [\<lparr>startEntry = s, endEntry = t,
                  outcome = (if action t \<in> SUCCESS_TERMINALS then success else failure)\<rparr>],
           os, insert (log_seq t) consumed))"
proof (cases "filter (\<lambda>t. agent t = agent s) ts = []")
  case True
  then show ?thesis
    by (simp add: pairStep_def groupByAgent_get rule_match_no_agent)
next
  case False
  then show ?thesis
    by (simp add: pairStep_def groupByAgent_get findMatch_rule split: option.splits)
qed

lemma pair_loop:
  "foldl (pairStep (groupByAgent ts)) (bs, os, consumed) ss = (bs', os', consumed') \<Longrightarrow>
   map (\<lambda>b. (startEntry b, endEntry b)) bs' =
     map (\<lambda>b. (startEntry b, endEntry b)) bs @ matched_of (rule_pairs task_non_empty ts consumed ss) \<and>
   map orphan_entry os' =
     map orphan_entry os @ unmatched_of (rule_pairs task_non_empty ts consumed ss)"
proof (induction ss arbitrary: bs os consumed)
  case Nil
  then show ?case by (simp add: matched_of_def unmatched_of_def)
next
  case (Cons s ss)
  show ?case
  proof (cases "rule_match task_non_empty consumed ts s")
    case None
    with Cons.prems have
      "foldl (pairStep (groupByAgent ts)) (bs, os @ [\<lparr>orphan_entry = s\<rparr>], consumed) ss =
         (bs', os', consumed')"
      by (simp add: pairStep_rule)
    from Cons.IH [OF this] None show ?thesis
      by (simp add: matched_of_def unmatched_of_def)
  next
    case (Some t)
    with Cons.prems have
      "foldl (pairStep (groupByAgent ts))
         (bs @ [\<lparr>startEntry = s, endEntry = t,
                  outcome = (if action t \<in> SUCCESS_TERMINALS then success else failure)\<rparr>],
          os, insert (log_seq t) consumed) ss = (bs', os', consumed')"
      by (simp add: pairStep_rule)
    from Cons.IH [OF this] Some show ?thesis
      by (simp add: matched_of_def unmatched_of_def)
  qed
qed

lemma pairEntries_rule_pairs:
  "map (\<lambda>b. (startEntry b, endEntry b)) (bars (pairEntries getTime evs)) =
     matched_of (rule_pairs task_non_empty (filter is_terminal evs) {} (filter is_start evs)) \<and>
   map orphan_entry (orphans (pairEntries getTime evs)) =
     unmatched_of (rule_pairs task_non_empty (filter is_terminal evs) {} (filter is_start evs))"
proof -
  obtain bs os consumed where
    f: "foldl (pairStep (groupByAgent (filter is_terminal evs))) ([], [], {})
          (filter is_start evs) = (bs, os, consumed)"
    by (metis prod_cases3)
  from pair_loop [OF f] f show ?thesis
    by (simp add: pairEntries_def classify_eq)
qed


lemma rule_match_Some:
  "rule_match ht consumed ts s = Some t \<Longrightarrow> t \<in> set ts \<and> log_seq t \<notin> consumed"
  by (auto simp: rule_match_def primary_match_def secondary_match_def find_Some_iff
      split: option.splits if_splits)

lemma rule_pairs_starts:
  "mset (map fst (matched_of (rule_pairs ht ts consumed ss))) +
   mset (unmatched_of (rule_pairs ht ts consumed ss)) = mset ss"
  by (induction ss arbitrary: consumed)
     (auto simp: matched_of_def unmatched_of_def split: option.splits)

lemma rule_pairs_ends:
  "distinct (map (log_seq \<circ> snd) (matched_of (rule_pairs ht ts consumed ss))) \<and>
   (\<forall>p \<in> set (matched_of (rule_pairs ht ts consumed ss)).
      snd p \<in> set ts \<and> log_seq (snd p) \<notin> consumed)"
proof (induction ss arbitrary: consumed)
  case Nil
  show ?case by (simp add: matched_of_def)
next
  case (Cons s ss)
  show ?case
  proof (cases "rule_match ht consumed ts s")
    case None
    with Cons.IH [of consumed] show ?thesis by (simp add: matched_of_def)
  next
    case (Some t)
    have m: "matched_of (rule_pairs ht ts consumed (s # ss)) =
             (s, t) # matched_of (rule_pairs ht ts (insert (log_seq t) consumed) ss)"
      using Some by (simp add: matched_of_def)
    from rule_match_Some [OF Some] Cons.IH [of "insert (log_seq t) consumed"]
    show ?thesis unfolding m by auto
  qed
qed

lemma distinct_map_filter_le1:
  "distinct (map f xs) \<Longrightarrow> length (filter (\<lambda>x. f x = y) xs) \<le> 1"
proof (induction xs)
  case Nil
  show ?case by simp
next
  case (Cons x xs)
  show ?case
  proof (cases "f x = y")
    case True
    with Cons.prems have "\<forall>z \<in> set xs. f z \<noteq> y" by (auto simp: image_iff)
    then have "filter (\<lambda>x. f x = y) xs = []" by (simp add: filter_empty_conv)
    with True show ?thesis by simp
  next
    case False
    with Cons show ?thesis by simp
  qed
qed

lemma distinct_map_comp: "distinct (map (g \<circ> f) xs) \<Longrightarrow> distinct (map f xs)"
  by (induction xs) auto

text \<open>
  Claim C2. Pairing conservation: for every input event list, in the output of
  \<open>pairEntries\<close> every START event of the input is the \<open>startEntry\<close> of a bar or the entry
  of an orphan, once in all (the START evs of the bars and the orphans together are
  the START events of the input, counted with repetition); where the START events are
  pairwise different, each of them is in exactly one of the two. Every \<open>endEntry\<close> is a
  terminal event of the input, the \<open>log_seq\<close> values of the end evs are pairwise
  different, and so every terminal event is the \<open>endEntry\<close> of at most one bar.
\<close>

theorem pairing_conservation:
  "mset (map startEntry (bars (pairEntries getTime evs))) +
     mset (map orphan_entry (orphans (pairEntries getTime evs))) =
     mset (filter is_start evs) \<and>
   (distinct (filter is_start evs) \<longrightarrow>
      (\<forall>s \<in> set evs. is_start s \<longrightarrow>
         (s \<in> set (map startEntry (bars (pairEntries getTime evs)))) \<noteq>
         (s \<in> set (map orphan_entry (orphans (pairEntries getTime evs)))))) \<and>
   set (map endEntry (bars (pairEntries getTime evs))) \<subseteq> set (filter is_terminal evs) \<and>
   distinct (map (log_seq \<circ> endEntry) (bars (pairEntries getTime evs))) \<and>
   (\<forall>t. length (filter (\<lambda>b. endEntry b = t) (bars (pairEntries getTime evs))) \<le> 1)"
proof -
  define r where "r = pairEntries getTime evs"
  define ps where
    "ps = rule_pairs task_non_empty (filter is_terminal evs) {} (filter is_start evs)"
  have bs: "map (\<lambda>b. (startEntry b, endEntry b)) (bars r) = matched_of ps"
    and os: "map orphan_entry (orphans r) = unmatched_of ps"
    using pairEntries_rule_pairs [of getTime evs] by (simp_all add: r_def ps_def)
  have st: "map startEntry (bars r) = map fst (matched_of ps)"
    and en: "map endEntry (bars r) = map snd (matched_of ps)"
    and ls: "map (log_seq \<circ> endEntry) (bars r) = map (log_seq \<circ> snd) (matched_of ps)"
    unfolding bs [symmetric] by (simp_all add: comp_def)
  have c1: "mset (map startEntry (bars r)) + mset (map orphan_entry (orphans r)) =
            mset (filter is_start evs)"
    unfolding st os ps_def by (rule rule_pairs_starts)
  have c2: "distinct (filter is_start evs) \<longrightarrow>
      (\<forall>s \<in> set evs. is_start s \<longrightarrow>
         (s \<in> set (map startEntry (bars r))) \<noteq> (s \<in> set (map orphan_entry (orphans r))))"
  proof (intro impI ballI)
    fix s
    assume d: "distinct (filter is_start evs)" and s: "s \<in> set evs" "is_start s"
    from d have "count (mset (filter is_start evs)) s =
                 (if s \<in> set (filter is_start evs) then 1 else 0)"
      unfolding distinct_count_atmost_1 by blast
    with s have "count (mset (filter is_start evs)) s = 1"
      by simp
    with c1 have "count (mset (map startEntry (bars r))) s +
                  count (mset (map orphan_entry (orphans r))) s = 1"
      by (metis count_union)
    moreover have "(s \<in> set (map startEntry (bars r))) =
                   (0 < count (mset (map startEntry (bars r))) s)"
      by (simp only: count_greater_zero_iff set_mset_mset)
    moreover have "(s \<in> set (map orphan_entry (orphans r))) =
                   (0 < count (mset (map orphan_entry (orphans r))) s)"
      by (simp only: count_greater_zero_iff set_mset_mset)
    ultimately show "(s \<in> set (map startEntry (bars r))) \<noteq>
                     (s \<in> set (map orphan_entry (orphans r)))"
      by linarith
  qed
  from rule_pairs_ends [of task_non_empty "filter is_terminal evs" "{}" "filter is_start evs"]
  have d: "distinct (map (log_seq \<circ> snd) (matched_of ps))"
    and m: "\<forall>p \<in> set (matched_of ps). snd p \<in> set (filter is_terminal evs)"
    by (simp_all add: ps_def)
  have c3: "set (map endEntry (bars r)) \<subseteq> set (filter is_terminal evs)"
    unfolding en using m by auto
  have c4: "distinct (map (log_seq \<circ> endEntry) (bars r))"
    unfolding ls by (rule d)
  have c5: "\<forall>t. length (filter (\<lambda>b. endEntry b = t) (bars r)) \<le> 1"
    using distinct_map_filter_le1 [OF distinct_map_comp [OF c4]] by blast
  from c1 c2 c3 c4 c5 show ?thesis unfolding r_def by blast
qed

lemma ex_two_starts_result:
  "pairEntries no_time ex_two_starts =
     \<lparr>bars = [\<lparr>startEntry = mk_entry 1 ''dev'' ''START'' ''impl'' (Some ''T1''),
               endEntry = mk_entry 3 ''dev'' ''COMPLETE'' ''impl'' (Some ''T1''),
               outcome = success\<rparr>],
      orphans = [\<lparr>orphan_entry = mk_entry 2 ''dev'' ''START'' ''impl'' (Some ''T1'')\<rparr>],
      markers = []\<rparr>"
  by code_simp

text \<open>The theorem at two STARTs of one task followed by one COMPLETE.\<close>

theorem pairing_conservation_witness:
  "distinct (filter is_start ex_two_starts) \<and>
   mk_entry 1 ''dev'' ''START'' ''impl'' (Some ''T1'') \<in> set ex_two_starts \<and>
   is_start (mk_entry 1 ''dev'' ''START'' ''impl'' (Some ''T1'')) \<and>
   mk_entry 1 ''dev'' ''START'' ''impl'' (Some ''T1'')
     \<in> set (map startEntry (bars (pairEntries no_time ex_two_starts))) \<and>
   mk_entry 1 ''dev'' ''START'' ''impl'' (Some ''T1'')
     \<notin> set (map orphan_entry (orphans (pairEntries no_time ex_two_starts)))"
proof -
  have d: "distinct (filter is_start ex_two_starts)" by code_simp
  have i: "mk_entry 1 ''dev'' ''START'' ''impl'' (Some ''T1'') \<in> set ex_two_starts"
    by (simp add: ex_two_starts_def)
  have s: "is_start (mk_entry 1 ''dev'' ''START'' ''impl'' (Some ''T1''))"
    by (simp add: is_start_def mk_entry_def)
  have b: "mk_entry 1 ''dev'' ''START'' ''impl'' (Some ''T1'')
     \<in> set (map startEntry (bars (pairEntries no_time ex_two_starts)))"
    by (simp add: ex_two_starts_result)
  from pairing_conservation [of no_time ex_two_starts] d i s b show ?thesis by blast
qed

text \<open>
  Claim C3, as amended. Pairing match rule: the STARTs are processed in input order; for a
  START whose \<open>task_id\<close> is neither null nor the empty string the match is the first terminal
  in arrival order that is not yet consumed, has the START's agent and \<open>task_id\<close> and a
  greater \<open>log_seq\<close>; if there is none, or the \<open>task_id\<close> is null or empty, the match is the
  first terminal not yet consumed with the START's agent, phase and \<open>parent_log_seq\<close> and a
  greater \<open>log_seq\<close>; if there is none the START is an orphan. A terminal is consumed when
  its \<open>log_seq\<close> is that of a terminal matched before. The bars are the matched pairs and
  the orphans the unmatched STARTs, both in input order.
\<close>

theorem pairing_match_rule:
  "map (\<lambda>b. (startEntry b, endEntry b)) (bars (pairEntries getTime evs)) =
     matched_of (rule_pairs task_non_empty (filter is_terminal evs) {} (filter is_start evs)) \<and>
   map orphan_entry (orphans (pairEntries getTime evs)) =
     unmatched_of (rule_pairs task_non_empty (filter is_terminal evs) {} (filter is_start evs))"
  by (rule pairEntries_rule_pairs)

text \<open>The claim as it was stated attempts the primary match whenever the \<open>task_id\<close> is not
  null. A START and a COMPLETE of one agent with the empty \<open>task_id\<close> and different phases:
  the stated rule pairs them, \<open>pairEntries\<close> leaves the START an orphan.\<close>

theorem pairing_match_rule_counterexample:
  "matched_of (rule_pairs task_non_null (filter is_terminal ex_empty_task) {}
                (filter is_start ex_empty_task)) =
     [(mk_entry 1 ''dev'' ''START'' ''design'' (Some ''''),
       mk_entry 2 ''dev'' ''COMPLETE'' ''review'' (Some ''''))] \<and>
   bars (pairEntries no_time ex_empty_task) = [] \<and>
   orphans (pairEntries no_time ex_empty_task) =
     [\<lparr>orphan_entry = mk_entry 1 ''dev'' ''START'' ''design'' (Some '''')\<rparr>]"
  by code_simp

section \<open>Theorems: the line parser\<close>

lemma parse_lines_since_filter:
  "parse_lines_since jp stn w ls (filter (above stn w) es) sk =
     map_sum id (\<lambda>r. r\<lparr>entries := filter (above stn w) (entries r)\<rparr>) (parse_lines jp ls es sk)"
proof (induction ls arbitrary: es sk)
  case Nil
  show ?case by simp
next
  case (Cons l ls)
  show ?case
  proof (cases "trim l = []")
    case True
    then show ?thesis using Cons.IH by simp
  next
    case False
    show ?thesis
    proof (cases "parseLine jp l")
      case (Inl e)
      with False show ?thesis by simp
    next
      case (Inr r)
      show ?thesis
      proof (cases r)
        case None
        with False Inr Cons.IH [of es "sk + 1"] show ?thesis by simp
      next
        case (Some entry)
        show ?thesis
        proof (cases "above stn w entry")
          case True
          with False Inr Some Cons.IH [of "es @ [entry]" sk] show ?thesis
            by (simp add: above_def)
        next
          case no: False
          with False Inr Some Cons.IH [of "es @ [entry]" sk] show ?thesis
            by (simp add: above_def)
        qed
      qed
    qed
  qed
qed

lemma parseIncremental_parse:
  "parseIncrementalContent jp stn content w =
     map_sum id (\<lambda>r. r\<lparr>entries := filter (above stn w) (entries r)\<rparr>) (parseLogContent jp content)"
  using parse_lines_since_filter [of jp stn w "split_nl content" "[]" 0]
  by (simp add: parseIncrementalContent_def parseLogContent_def)

text \<open>
  Claim C7. Incremental parse equation: for every content and every watermark \<open>w\<close>, the
  events that \<open>parseIncrementalContent\<close> returns are the events that \<open>parseLogContent\<close>
  returns for the same content, filtered to those whose \<open>log_seq\<close> is greater than \<open>w\<close>, in
  the same order; and the one throws exactly when the other does. On a \<open>log_seq\<close> that is a
  number the test is the comparison of the numbers.
\<close>

theorem incremental_parse_equation:
  "map_sum id entries (parseIncrementalContent jp stn content w) =
     map_sum id (\<lambda>r. filter (above stn w) (entries r)) (parseLogContent jp content) \<and>
   above stn w (e\<lparr>log_seq := JNum n\<rparr>) = (w < n)"
proof -
  have "map_sum id entries (parseIncrementalContent jp stn content w) =
     map_sum id (\<lambda>r. filter (above stn w) (entries r)) (parseLogContent jp content)"
    unfolding parseIncremental_parse by (cases "parseLogContent jp content") simp_all
  moreover have "above stn w (e\<lparr>log_seq := JNum n\<rparr>) = (w < n)"
    by (simp add: above_def js_gt_def ToNumber_def)
  ultimately show ?thesis by blast
qed

text \<open>
  Claim C10. The incremental parse counts the malformed lines again: for every content and
  every watermark \<open>w\<close>, \<open>parseIncrementalContent\<close> reports the \<open>skippedLines\<close> of the full
  parse of the same content, whatever \<open>w\<close> is, while none of the events it returns has a
  \<open>log_seq\<close> at or below \<open>w\<close>.
\<close>

theorem incremental_parse_skipped:
  "map_sum id skippedLines (parseIncrementalContent jp stn content w) =
     map_sum id skippedLines (parseLogContent jp content) \<and>
   map_sum id (\<lambda>r. filter (\<lambda>e. \<not> above stn w e) (entries r))
     (parseIncrementalContent jp stn content w) =
     map_sum id (\<lambda>r. []) (parseLogContent jp content)"
  unfolding parseIncremental_parse by (cases "parseLogContent jp content") simp_all

lemma parse_lines_no_throw:
  assumes "\<forall>line \<in> set ls. parseLine jp line \<noteq> Inl TypeError"
  shows "parse_lines jp ls es sk =
     Inr \<lparr>entries = es @ concat (map (\<lambda>line. case parseLine jp line of
                                             Inr (Some e) \<Rightarrow> [e] | _ \<Rightarrow> [])
                                 (filter (\<lambda>line. trim line \<noteq> []) ls)),
          skippedLines = sk + length (filter (\<lambda>line. parseLine jp line = Inr None)
                                       (filter (\<lambda>line. trim line \<noteq> []) ls))\<rparr>"
  using assms
proof (induction ls arbitrary: es sk)
  case Nil
  show ?case by simp
next
  case (Cons l ls)
  from Cons.prems have nt: "parseLine jp l \<noteq> Inl TypeError"
    and rest: "\<forall>line \<in> set ls. parseLine jp line \<noteq> Inl TypeError" by simp_all
  show ?case
  proof (cases "trim l = []")
    case True
    then show ?thesis using Cons.IH [OF rest] by simp
  next
    case False
    show ?thesis
    proof (cases "parseLine jp l")
      case (Inl e)
      with nt show ?thesis by (cases e) simp
    next
      case (Inr r)
      with False Cons.IH [OF rest] show ?thesis by (cases r) simp_all
    qed
  qed
qed

text \<open>
  On every content none of whose lines makes \<open>parseLine\<close> throw, the result holds the
  entries of the well-formed lines in input order, and \<open>skippedLines\<close> is the number of the
  other non-blank lines.
\<close>

lemma parse_robust_unless_thrown:
  assumes "\<forall>line \<in> set (split_nl content). parseLine jp line \<noteq> Inl TypeError"
  shows "parseLogContent jp content =
     Inr \<lparr>entries = concat (map (\<lambda>line. case parseLine jp line of
                                        Inr (Some e) \<Rightarrow> [e] | _ \<Rightarrow> [])
                            (non_blank_lines content)),
          skippedLines = length (filter (\<lambda>line. parseLine jp line = Inr None)
                                  (non_blank_lines content))\<rparr>"
  using parse_lines_no_throw [OF assms, of "[]" 0]
  by (simp add: parseLogContent_def non_blank_lines_def)

text \<open>
  Claim C6. Parser robustness: a malformed line is counted, never thrown, and never
  prevents later lines from being parsed. The code does otherwise on a line that is JSON but
  not an object or an array, such as \<open>null\<close>: \<open>JSON.parse\<close> returns, the test
  \<open>field in parsed\<close> throws a \<open>TypeError\<close> outside the \<open>try\<close> block, and \<open>parseLogContent\<close>
  throws, although the next line is a well-formed record, which alone parses to one entry.
\<close>

theorem parser_throws_on_primitive_line:
  "parseLogContent ex_JSON_parse (''null'' @ [CHR 0x0A] @ ex_line) = Inl TypeError \<and>
   map_sum id (\<lambda>r. (length (entries r), skippedLines r)) (parseLogContent ex_JSON_parse ex_line) =
     Inr (1, 0)"
  by code_simp

section \<open>Theorems: phase statistics\<close>

lemma first_occurrences_snoc:
  "first_occurrences (xs @ [x]) = Set_add x (first_occurrences xs)"
  by (simp add: first_occurrences_def)

lemma first_occurrences_set_distinct:
  "set (first_occurrences xs) = set xs \<and> distinct (first_occurrences xs)"
proof (induction xs rule: rev_induct)
  case Nil
  show ?case by (simp add: first_occurrences_def)
next
  case (snoc x xs)
  then show ?case by (auto simp: first_occurrences_snoc Set_add_def)
qed

lemma Map_get_keyed:
  "Map_get (map (\<lambda>k. (k, f k)) ks) k = (if k \<in> set ks then Some (f k) else None)"
  by (induction ks) (auto simp: Map_get_def)

lemma Map_has_get: "Map_has k m = (Map_get m k \<noteq> None)"
  by (simp add: Map_has_def Map_get_def)

lemma Map_set_keyed_new:
  "k \<notin> set ks \<Longrightarrow> Map_set k v (map (\<lambda>k. (k, f k)) ks) = map (\<lambda>k. (k, f k)) ks @ [(k, v)]"
  by (induction ks) auto

lemma Map_set_keyed_old:
  "k \<in> set ks \<Longrightarrow> distinct ks \<Longrightarrow>
   Map_set k v (map (\<lambda>k. (k, f k)) ks) = map (\<lambda>k'. (k', if k' = k then v else f k')) ks"
proof (induction ks)
  case Nil
  then show ?case by simp
next
  case (Cons a ks)
  show ?case
  proof (cases "a = k")
    case True
    with Cons.prems have "k \<notin> set ks" by simp
    then have "map (\<lambda>k'. (k', if k' = k then v else f k')) ks = map (\<lambda>k. (k, f k)) ks"
      by (induction ks) auto
    with True show ?thesis by simp
  next
    case False
    with Cons show ?thesis by simp
  qed
qed

lemma Map_set_twice: "Map_set k v (Map_set k v' m) = Map_set k v m"
  by (induction m) auto

lemma push_at_grouped: "push_at (key x) x (grouped key es) = grouped key (es @ [x])"
proof (cases "key x \<in> set (map key es)")
  case True
  let ?ks = "first_occurrences (map key es)"
  from True have mem: "key x \<in> set ?ks" and d: "distinct ?ks"
    using first_occurrences_set_distinct [of "map key es"] by simp_all
  have ks: "first_occurrences (map key (es @ [x])) = ?ks"
    using mem by (simp add: first_occurrences_snoc Set_add_def)
  have "push_at (key x) x (grouped key es) =
        Map_set (key x) (filter (\<lambda>e. key e = key x) es @ [x]) (grouped key es)"
    using mem by (simp add: push_at_def Map_has_get grouped_def Map_get_keyed)
  also have "\<dots> = map (\<lambda>k'. (k', if k' = key x then filter (\<lambda>e. key e = key x) es @ [x]
                                  else filter (\<lambda>e. key e = k') es)) ?ks"
    unfolding grouped_def by (rule Map_set_keyed_old [OF mem d])
  also have "\<dots> = map (\<lambda>k. (k, filter (\<lambda>e. key e = k) (es @ [x]))) ?ks"
    by (rule map_cong) auto
  finally show ?thesis by (simp only: grouped_def ks)
next
  case False
  let ?ks = "first_occurrences (map key es)"
  from False have nmem: "key x \<notin> set ?ks"
    using first_occurrences_set_distinct [of "map key es"] by simp
  have ks: "first_occurrences (map key (es @ [x])) = ?ks @ [key x]"
    using nmem by (simp add: first_occurrences_snoc Set_add_def)
  have "push_at (key x) x (grouped key es) = Map_set (key x) [x] (grouped key es)"
    using nmem
    by (simp add: push_at_def Map_has_get grouped_def Map_get_keyed Map_get_Map_set
          Map_set_twice)
  also have "\<dots> = grouped key es @ [(key x, [x])]"
    unfolding grouped_def by (rule Map_set_keyed_new [OF nmem])
  also have "\<dots> = map (\<lambda>k. (k, filter (\<lambda>e. key e = k) (es @ [x]))) (?ks @ [key x])"
  proof -
    have a: "map (\<lambda>k. (k, filter (\<lambda>e. key e = k) (es @ [x]))) ?ks = grouped key es"
      unfolding grouped_def using nmem by (intro map_cong) auto
    have b: "filter (\<lambda>e. key e = key x) es = []"
      using False by (auto simp: filter_empty_conv image_iff)
    have c: "filter (\<lambda>e. key e = key x) (es @ [x]) = [x]"
      using b by simp
    show ?thesis
      unfolding map_append a by (simp only: list.map c)
  qed
  finally show ?thesis by (simp only: grouped_def ks)
qed

lemma grouping_loop: "foldl (\<lambda>m e. push_at (key e) e m) [] es = grouped key es"
proof (induction es rule: rev_induct)
  case Nil
  show ?case by (simp add: grouped_def first_occurrences_def)
next
  case (snoc x xs)
  then show ?case by (simp add: push_at_grouped)
qed

lemma foldl_skip:
  "foldl (\<lambda>m e. if P e then m else g m e) a es = foldl g a (filter (\<lambda>e. \<not> P e) es)"
  by (induction es arbitrary: a) auto

lemma workUnits_grouped: "workUnits_of es = grouped workUnitKey es"
  unfolding workUnits_of_def by (rule grouping_loop)

lemma phaseMap_grouped: "phaseMap_of es = grouped phase (filter (\<lambda>e. phase e \<noteq> []) es)"
  unfolding phaseMap_of_def foldl_skip by (rule grouping_loop)

lemma phaseMap_names: "map fst (phaseMap_of es) = phase_names es"
proof -
  have "map phase (filter (\<lambda>e. phase e \<noteq> []) es) = filter (\<lambda>p. p \<noteq> []) (map phase es)"
    by (induction es) auto
  then show ?thesis
    by (simp add: phaseMap_grouped grouped_def phase_names_def comp_def)
qed

lemma phaseMap_get:
  "(case Map_get (phaseMap_of es) nm of Some pes \<Rightarrow> pes | None \<Rightarrow> []) = phase_events nm es"
proof -
  let ?fs = "filter (\<lambda>e. phase e \<noteq> []) es"
  have f: "filter (\<lambda>e. phase e = nm) ?fs = phase_events nm es"
    by (simp add: phase_events_def)
  note fo = first_occurrences_set_distinct [of "map phase ?fs"]
  show ?thesis
  proof (cases "nm \<in> set (map phase ?fs)")
    case True
    with fo have "nm \<in> set (first_occurrences (map phase ?fs))" by blast
    then show ?thesis
      by (simp only: phaseMap_grouped grouped_def Map_get_keyed f if_True option.case)
  next
    case False
    then have e: "filter (\<lambda>e. phase e = nm) ?fs = []"
      by (auto simp: filter_empty_conv image_iff)
    from False fo have "nm \<notin> set (first_occurrences (map phase ?fs))" by blast
    then show ?thesis
      by (simp only: phaseMap_grouped grouped_def Map_get_keyed f [symmetric] e if_False
            option.case)
  qed
qed

lemma computePhaseStats_eq:
  "computePhaseStats lc fl es =
     map (\<lambda>nm. phaseStats fl nm (phase_events nm es)) (sortPhases lc (phase_names es))"
  by (simp add: computePhaseStats_def Let_def phaseMap_names phaseMap_get)

lemma find_append_case:
  "find P (xs @ ys) = (case find P xs of None \<Rightarrow> find P ys | Some x \<Rightarrow> Some x)"
  by (induction xs) auto

lemma latest_loop:
  assumes "find (\<lambda>e. log_seq e = log_seq prev) pre = Some (prev :: Entry)"
    and "\<forall>y \<in> set pre. log_seq y \<le> log_seq prev"
  shows "find (\<lambda>e. list_all (\<lambda>y. log_seq y \<le> log_seq e) (pre @ xs)) (pre @ xs) =
         Some (foldl (\<lambda>prev curr. if log_seq curr > log_seq prev then curr else prev) prev xs)"
  using assms
proof (induction xs arbitrary: pre prev)
  case Nil
  from Nil.prems(1) have mem: "prev \<in> set pre"
    by (auto simp: find_Some_iff in_set_conv_nth)
  have "find (\<lambda>e. list_all (\<lambda>y. log_seq y \<le> log_seq e) pre) pre =
        find (\<lambda>e. log_seq e = log_seq prev) pre"
  proof (rule find_cong [OF refl])
    fix e assume "e \<in> set pre"
    with Nil.prems(2) mem show "list_all (\<lambda>y. log_seq y \<le> log_seq e) pre =
                                (log_seq e = log_seq prev)"
      by (auto simp: list_all_iff dest: antisym)
  qed
  with Nil.prems(1) show ?case by simp
next
  case (Cons c xs)
  let ?step = "\<lambda>prev curr :: Entry. if log_seq curr > log_seq prev then curr else prev"
  have a: "find (\<lambda>e. log_seq e = log_seq (?step prev c)) (pre @ [c]) = Some (?step prev c)"
  proof (cases "log_seq c > log_seq prev")
    case True
    with Cons.prems(2) have "find (\<lambda>e. log_seq e = log_seq c) pre = None"
      by (auto simp: find_None_iff)
    with True show ?thesis by (simp add: find_append_case)
  next
    case False
    with Cons.prems(1) show ?thesis by (simp add: find_append_case)
  qed
  have b: "\<forall>y \<in> set (pre @ [c]). log_seq y \<le> log_seq (?step prev c)"
    using Cons.prems(2) by auto
  from Cons.IH [OF a b] show ?case by simp
qed

lemma reduce_latest_eq: "u \<noteq> [] \<Longrightarrow> reduce_latest u = latest_event u"
proof (cases u)
  case Nil
  assume "u \<noteq> []"
  with Nil show ?thesis by simp
next
  case (Cons x xs)
  have "find (\<lambda>e. log_seq e = log_seq x) [x] = Some x" by simp
  moreover have "\<forall>y \<in> set [x]. log_seq y \<le> log_seq x" by simp
  ultimately have
    "find (\<lambda>e. list_all (\<lambda>y. log_seq y \<le> log_seq e) ([x] @ xs)) ([x] @ xs) =
     Some (foldl (\<lambda>prev curr. if log_seq curr > log_seq prev then curr else prev) x xs)"
    by (rule latest_loop)
  with Cons show ?thesis by (simp add: reduce_latest_def latest_event_def)
qed

lemma reduce_latest_Some: "u \<noteq> [] \<Longrightarrow> \<exists>l. reduce_latest u = Some l"
  by (cases u) (simp_all add: reduce_latest_def)

lemma dashboard_actions_disjoint: "a \<in> TERMINAL_ACTIONS' \<Longrightarrow> a \<notin> FAILURE_ACTIONS"
  by (auto simp: TERMINAL_ACTIONS'_def FAILURE_ACTIONS_def)

lemma latest_exclusive:
  "\<not> (latest_action_in TERMINAL_ACTIONS' u \<and> latest_action_in FAILURE_ACTIONS u)"
  by (auto simp: latest_action_in_def dashboard_actions_disjoint split: option.splits)

lemma countUnit_eq:
  "countUnit (t, c, f) u =
     (if list_ex is_start u then t + 1 else t,
      if list_ex is_start u \<and> latest_action_in TERMINAL_ACTIONS' u then c + 1 else c,
      if list_ex is_start u \<and> latest_action_in FAILURE_ACTIONS u then f + 1 else f)"
proof (cases "list_ex is_start u")
  case False
  then show ?thesis by (simp add: countUnit_def is_start_def [abs_def])
next
  case True
  then have ne: "u \<noteq> []" by auto
  from reduce_latest_Some [OF ne] obtain l where l: "reduce_latest u = Some l" by blast
  with reduce_latest_eq [OF ne] have le: "latest_event u = Some l" by simp
  from True l le show ?thesis
    using dashboard_actions_disjoint [of "action l"]
    by (auto simp: countUnit_def is_start_def [abs_def] latest_action_in_def)
qed

lemma count_loop:
  "foldl countUnit (t, c, f) us =
     (t + length (filter (list_ex is_start) us),
      c + length (filter (\<lambda>u. list_ex is_start u \<and> latest_action_in TERMINAL_ACTIONS' u) us),
      f + length (filter (\<lambda>u. list_ex is_start u \<and> latest_action_in FAILURE_ACTIONS u) us))"
  by (induction us arbitrary: t c f) (simp_all add: countUnit_eq)

lemma length_filter_split3:
  assumes "\<And>x. \<not> (T x \<and> F x)"
  shows "length (filter A xs) =
         length (filter (\<lambda>x. A x \<and> T x) xs) + length (filter (\<lambda>x. A x \<and> F x) xs) +
         length (filter (\<lambda>x. A x \<and> \<not> T x \<and> \<not> F x) xs)"
  using assms by (induction xs) auto

lemma phaseStats_fields:
  "name (phaseStats fl nm es) = nm \<and>
   total' (phaseStats fl nm es) =
     length (filter (list_ex is_start) (map snd (workUnits_of es))) \<and>
   completed (phaseStats fl nm es) =
     length (filter (\<lambda>u. list_ex is_start u \<and> latest_action_in TERMINAL_ACTIONS' u)
               (map snd (workUnits_of es))) \<and>
   failures (phaseStats fl nm es) =
     length (filter (\<lambda>u. list_ex is_start u \<and> latest_action_in FAILURE_ACTIONS u)
               (map snd (workUnits_of es))) \<and>
   inProgress (phaseStats fl nm es) =
     length (filter (\<lambda>u. list_ex is_start u \<and> \<not> latest_action_in TERMINAL_ACTIONS' u \<and>
                          \<not> latest_action_in FAILURE_ACTIONS u)
               (map snd (workUnits_of es))) \<and>
   percentage (phaseStats fl nm es) =
     percentage_of fl (completed (phaseStats fl nm es)) (total' (phaseStats fl nm es))"
proof -
  let ?us = "map snd (workUnits_of es)"
  have s: "length (filter (list_ex is_start) ?us) =
         length (filter (\<lambda>u. list_ex is_start u \<and> latest_action_in TERMINAL_ACTIONS' u) ?us) +
         length (filter (\<lambda>u. list_ex is_start u \<and> latest_action_in FAILURE_ACTIONS u) ?us) +
         length (filter (\<lambda>u. list_ex is_start u \<and> \<not> latest_action_in TERMINAL_ACTIONS' u \<and>
                          \<not> latest_action_in FAILURE_ACTIONS u) ?us)"
    by (rule length_filter_split3) (rule latest_exclusive)
  show ?thesis
    unfolding phaseStats_def count_loop using s by simp
qed

lemma percentage_bounds:
  assumes "\<And>x. 0 \<le> x \<Longrightarrow> 0 \<le> fl x"
  shows "0 \<le> percentage_of fl c t \<and> percentage_of fl c t \<le> 100"
proof (cases "t > 0")
  case False
  then show ?thesis by (simp add: percentage_of_def)
next
  case True
  have "(0::rat) \<le> of_nat c / of_nat t" by simp
  then have "0 \<le> fl (of_nat c / of_nat t)" by (rule assms)
  then have "0 \<le> fl (of_nat c / of_nat t) * 100" by simp
  then have "0 \<le> fl (fl (of_nat c / of_nat t) * 100)" by (rule assms)
  then have "0 \<le> Math_round (fl (fl (of_nat c / of_nat t) * 100))"
    by (simp add: Math_round_def)
  with True show ?thesis by (simp add: percentage_of_def)
qed

text \<open>
  Claim C4. Phase statistics bounds: for every input event list, every record that
  \<open>computePhaseStats\<close> returns has a percentage that is an integer from 0 to 100 and
  satisfies \<open>completed + failures + inProgress = total\<close>. The rounding of the binary64
  operations is required to keep a non-negative value non-negative, which it does.
\<close>

theorem phase_stats_bounds:
  assumes "\<And>x. 0 \<le> x \<Longrightarrow> 0 \<le> fl x"
  shows "\<forall>r \<in> set (computePhaseStats lc fl evs).
           0 \<le> percentage r \<and> percentage r \<le> 100 \<and>
           completed r + failures r + inProgress r = total' r"
proof
  fix r assume "r \<in> set (computePhaseStats lc fl evs)"
  then obtain nm where r: "r = phaseStats fl nm (phase_events nm evs)"
    by (auto simp: computePhaseStats_eq)
  let ?us = "map snd (workUnits_of (phase_events nm evs))"
  have s: "length (filter (list_ex is_start) ?us) =
         length (filter (\<lambda>u. list_ex is_start u \<and> latest_action_in TERMINAL_ACTIONS' u) ?us) +
         length (filter (\<lambda>u. list_ex is_start u \<and> latest_action_in FAILURE_ACTIONS u) ?us) +
         length (filter (\<lambda>u. list_ex is_start u \<and> \<not> latest_action_in TERMINAL_ACTIONS' u \<and>
                          \<not> latest_action_in FAILURE_ACTIONS u) ?us)"
    by (rule length_filter_split3) (rule latest_exclusive)
  from phaseStats_fields [of fl nm "phase_events nm evs"] s
  have "completed r + failures r + inProgress r = total' r"
    unfolding r by simp
  moreover from phaseStats_fields [of fl nm "phase_events nm evs"]
    percentage_bounds [of fl, OF assms]
  have "0 \<le> percentage r \<and> percentage r \<le> 100"
    unfolding r by simp
  ultimately show "0 \<le> percentage r \<and> percentage r \<le> 100 \<and>
           completed r + failures r + inProgress r = total' r" by blast
qed

lemma ex_phase_stats:
  "computePhaseStats ex_localeCompare exact ex_phase_entries =
     [\<lparr>name = ''implementation'', total' = 3, completed = 1, inProgress = 1, failures = 1,
       errors' = 0, percentage = 33\<rparr>]"
  by code_simp

text \<open>The theorem at the three work units START and COMPLETE, START alone, START and
  ERROR of one phase, with exact arithmetic.\<close>

theorem phase_stats_bounds_witness:
  "map (\<lambda>r. (total' r, completed r, failures r, inProgress r, percentage r))
     (computePhaseStats ex_localeCompare exact ex_phase_entries) = [(3, 1, 1, 1, 33)] \<and>
   list_all (\<lambda>r. 0 \<le> percentage r \<and> percentage r \<le> 100 \<and>
                  completed r + failures r + inProgress r = total' r)
     (computePhaseStats ex_localeCompare exact ex_phase_entries)"
proof -
  have "\<forall>r \<in> set (computePhaseStats ex_localeCompare exact ex_phase_entries).
           0 \<le> percentage r \<and> percentage r \<le> 100 \<and>
           completed r + failures r + inProgress r = total' r"
    by (rule phase_stats_bounds) (simp add: exact_def)
  then have "list_all (\<lambda>r. 0 \<le> percentage r \<and> percentage r \<le> 100 \<and>
                  completed r + failures r + inProgress r = total' r)
     (computePhaseStats ex_localeCompare exact ex_phase_entries)"
    by (simp only: list_all_iff)
  then show ?thesis by (simp add: ex_phase_stats)
qed


lemma units_card:
  "length (filter Q (map snd (workUnits_of es))) =
     card {k \<in> workUnitKey ` set es. Q (work_unit es k)}"
proof -
  let ?ks = "first_occurrences (map workUnitKey es)"
  have ks: "set ?ks = workUnitKey ` set es" and d: "distinct ?ks"
    using first_occurrences_set_distinct [of "map workUnitKey es"] by simp_all
  have "map snd (workUnits_of es) = map (work_unit es) ?ks"
    by (simp add: workUnits_grouped grouped_def work_unit_def [abs_def] comp_def)
  then have "length (filter Q (map snd (workUnits_of es))) =
             length (filter (\<lambda>k. Q (work_unit es k)) ?ks)"
    by (simp add: filter_map comp_def)
  also have "\<dots> = card ({k. Q (work_unit es k)} \<inter> set ?ks)"
    by (rule distinct_length_filter [OF d])
  also have "{k. Q (work_unit es k)} \<inter> set ?ks = {k \<in> workUnitKey ` set es. Q (work_unit es k)}"
    unfolding ks by blast
  finally show ?thesis .
qed

lemma phaseStats_cards:
  "(name (phaseStats fl nm es), total' (phaseStats fl nm es), completed (phaseStats fl nm es),
    failures (phaseStats fl nm es), inProgress (phaseStats fl nm es)) =
   (nm, card (counted_units es),
    card {k \<in> counted_units es. latest_action_in TERMINAL_ACTIONS' (work_unit es k)},
    card {k \<in> counted_units es. latest_action_in FAILURE_ACTIONS (work_unit es k)},
    card {k \<in> counted_units es. \<not> latest_action_in TERMINAL_ACTIONS' (work_unit es k) \<and>
                                  \<not> latest_action_in FAILURE_ACTIONS (work_unit es k)})"
proof -
  have s: "\<And>P. {k \<in> counted_units es. P k} =
               {k \<in> workUnitKey ` set es. list_ex is_start (work_unit es k) \<and> P k}"
    by (auto simp: counted_units_def)
  note f = phaseStats_fields [of fl nm es]
  from f have f1: "name (phaseStats fl nm es) = nm" by blast
  from f have f2: "total' (phaseStats fl nm es) =
     length (filter (list_ex is_start) (map snd (workUnits_of es)))" by blast
  from f have f3: "completed (phaseStats fl nm es) =
     length (filter (\<lambda>u. list_ex is_start u \<and> latest_action_in TERMINAL_ACTIONS' u)
               (map snd (workUnits_of es)))" by blast
  from f have f4: "failures (phaseStats fl nm es) =
     length (filter (\<lambda>u. list_ex is_start u \<and> latest_action_in FAILURE_ACTIONS u)
               (map snd (workUnits_of es)))" by blast
  from f have f5: "inProgress (phaseStats fl nm es) =
     length (filter (\<lambda>u. list_ex is_start u \<and> \<not> latest_action_in TERMINAL_ACTIONS' u \<and>
                          \<not> latest_action_in FAILURE_ACTIONS u)
               (map snd (workUnits_of es)))" by blast
  show ?thesis
    unfolding s by (simp only: f1 f2 f3 f4 f5 units_card counted_units_def)
qed

text \<open>
  Claim C5. Phase work-unit counting: \<open>computePhaseStats\<close> returns one record for each
  phase, in the order \<open>sortPhases\<close> gives to the phases present. Within a phase the events
  are grouped into work units by the key \<open>agent + "|" + (task_id, or the event's own log_seq
  when task_id is null)\<close>; \<open>total\<close> is the number of work units that hold at least one
  START; \<open>completed\<close> is the number of those whose latest event by \<open>log_seq\<close> is COMPLETE,
  REVIEW_PASS or TEST_PASS, \<open>failures\<close> the number of those whose latest event is
  REVIEW_FAIL, TEST_FAIL or ERROR, and \<open>inProgress\<close> the number of the others.
\<close>

theorem phase_work_unit_counting:
  "map (\<lambda>r. (name r, total' r, completed r, failures r, inProgress r))
     (computePhaseStats lc fl evs) =
   map (\<lambda>p. (p, card (counted_units (phase_events p evs)),
              card {k \<in> counted_units (phase_events p evs).
                      latest_action_in TERMINAL_ACTIONS' (work_unit (phase_events p evs) k)},
              card {k \<in> counted_units (phase_events p evs).
                      latest_action_in FAILURE_ACTIONS (work_unit (phase_events p evs) k)},
              card {k \<in> counted_units (phase_events p evs).
                      \<not> latest_action_in TERMINAL_ACTIONS' (work_unit (phase_events p evs) k) \<and>
                      \<not> latest_action_in FAILURE_ACTIONS (work_unit (phase_events p evs) k)}))
     (sortPhases lc (phase_names evs)) \<and>
   workUnitKey e =
     agent e @ ''|'' @ (case task_id e of Some t \<Rightarrow> t | None \<Rightarrow> String_int (log_seq e))"
  by (simp add: computePhaseStats_eq comp_def phaseStats_cards workUnitKey_def)

section \<open>Theorems: requirement range expansion\<close>

text \<open>The matcher against the shape in words: it succeeds exactly on the inputs that have
  the shape, with the longest prefix for which the input has it, and the digit strings are
  then determined.\<close>

lemma first_some_None: "first_some f xs = None \<longleftrightarrow> (\<forall>x \<in> set xs. f x = None)"
  by (induction xs) (auto split: option.splits)

lemma first_some_append:
  "first_some f (xs @ ys) =
     (case first_some f xs of Some y \<Rightarrow> Some y | None \<Rightarrow> first_some f ys)"
  by (induction xs) (auto split: option.splits)

lemma first_some_map: "first_some f (map h xs) = first_some (\<lambda>x. f (h x)) xs"
  by (induction xs) (auto split: option.splits)

lemma plus_splits_set:
  "(ys, zs) \<in> set (plus_splits P s) \<longleftrightarrow> ys \<noteq> [] \<and> list_all P ys \<and> s = ys @ zs"
proof (induction s arbitrary: ys)
  case Nil
  show ?case by simp
next
  case (Cons c cs)
  show ?case
  proof (cases "P c")
    case False
    then show ?thesis by (cases ys) auto
  next
    case True
    have mem: "(ys, zs) \<in> set (plus_splits P (c # cs)) \<longleftrightarrow>
               (\<exists>ys0. ys = c # ys0 \<and> (ys0, zs) \<in> set (plus_splits P cs)) \<or>
               (ys = [c] \<and> zs = cs)"
      using True by (auto simp: image_iff)
    have "((\<exists>ys0. ys = c # ys0 \<and> ys0 \<noteq> [] \<and> list_all P ys0 \<and> cs = ys0 @ zs) \<or>
           (ys = [c] \<and> zs = cs)) \<longleftrightarrow>
          (ys \<noteq> [] \<and> list_all P ys \<and> c # cs = ys @ zs)"
      using True by (cases ys) auto
    with mem Cons.IH show ?thesis by simp
  qed
qed

lemma plus_splits_None:
  "first_some f (plus_splits P s) = None \<longleftrightarrow>
     (\<forall>ys zs. ys \<noteq> [] \<and> list_all P ys \<and> s = ys @ zs \<longrightarrow> f (ys, zs) = None)"
  unfolding first_some_None using plus_splits_set [of _ _ P s] by auto

lemma plus_splits_Some:
  "first_some f (plus_splits P s) = Some y \<Longrightarrow>
   \<exists>ys zs. ys \<noteq> [] \<and> list_all P ys \<and> s = ys @ zs \<and> f (ys, zs) = Some y \<and>
     (\<forall>ys' zs'. list_all P ys' \<and> s = ys' @ zs' \<and> length ys < length ys' \<longrightarrow>
        f (ys', zs') = None)"
proof (induction s arbitrary: f)
  case Nil
  then show ?case by simp
next
  case (Cons c cs)
  show ?case
  proof (cases "P c")
    case False
    with Cons.prems show ?thesis by simp
  next
    case True
    let ?h = "\<lambda>p. f (c # fst p, snd p)"
    have eq: "first_some f (plus_splits P (c # cs)) =
              (case first_some ?h (plus_splits P cs) of
                 Some y \<Rightarrow> Some y
               | None \<Rightarrow> first_some f [([c], cs)])"
      using True by (simp add: first_some_append first_some_map case_prod_beta)
    show ?thesis
    proof (cases "first_some ?h (plus_splits P cs)")
      case (Some y')
      with eq Cons.prems have y': "y' = y" by simp
      from Cons.IH [OF Some [unfolded y']] obtain ys zs where
        a: "ys \<noteq> []" "list_all P ys" "cs = ys @ zs" "f (c # ys, zs) = Some y"
        and m: "\<forall>ys' zs'. list_all P ys' \<and> cs = ys' @ zs' \<and> length ys < length ys' \<longrightarrow>
                  f (c # ys', zs') = None"
        by auto
      have "\<forall>ys' zs'. list_all P ys' \<and> c # cs = ys' @ zs' \<and> length (c # ys) < length ys' \<longrightarrow>
              f (ys', zs') = None"
      proof (intro allI impI)
        fix ys' zs'
        assume h: "list_all P ys' \<and> c # cs = ys' @ zs' \<and> length (c # ys) < length ys'"
        then obtain ys'' where ys': "ys' = c # ys''" by (cases ys') auto
        with h m show "f (ys', zs') = None" by auto
      qed
      with a True show ?thesis
        by (intro exI [of _ "c # ys"] exI [of _ zs]) simp
    next
      case None
      with eq Cons.prems have fc: "f ([c], cs) = Some y" by (simp split: option.splits)
      have "\<forall>ys' zs'. list_all P ys' \<and> c # cs = ys' @ zs' \<and> length [c] < length ys' \<longrightarrow>
              f (ys', zs') = None"
      proof (intro allI impI)
        fix ys' zs'
        assume h: "list_all P ys' \<and> c # cs = ys' @ zs' \<and> length [c] < length ys'"
        then obtain ys'' where ys': "ys' = c # ys''" and ne: "ys'' \<noteq> []"
          by (cases ys') auto
        from None have "\<forall>ys zs. ys \<noteq> [] \<and> list_all P ys \<and> cs = ys @ zs \<longrightarrow>
                          f (c # ys, zs) = None"
          unfolding plus_splits_None by simp
        with h ys' ne show "f (ys', zs') = None" by auto
      qed
      with fc True show ?thesis
        by (intro exI [of _ "[c]"] exI [of _ cs]) simp
    qed
  qed
qed

lemma strip_ci_Some:
  "strip_ci p r = Some r' \<longleftrightarrow> (\<exists>t. r = t @ r' \<and> ci_eq t p)"
proof (induction p r rule: strip_ci.induct)
  case (1 r)
  show ?case by (auto simp: ci_eq_def)
next
  case (2 p ps)
  show ?case by (auto simp: ci_eq_def)
next
  case (3 p ps c cs)
  show ?case
  proof (cases "canonicalize p = canonicalize c")
    case False
    then show ?thesis by (auto simp: ci_eq_def Cons_eq_append_conv)
  next
    case True
    have "(\<exists>t. c # cs = t @ r' \<and> ci_eq t (p # ps)) \<longleftrightarrow> (\<exists>t. cs = t @ r' \<and> ci_eq t ps)"
    proof
      assume "\<exists>t. c # cs = t @ r' \<and> ci_eq t (p # ps)"
      then obtain t where t: "c # cs = t @ r'" "ci_eq t (p # ps)" by blast
      then obtain t' where "t = c # t'" by (cases t) (auto simp: ci_eq_def)
      with t show "\<exists>t. cs = t @ r' \<and> ci_eq t ps" by (auto simp: ci_eq_def)
    next
      assume "\<exists>t. cs = t @ r' \<and> ci_eq t ps"
      then obtain t where "cs = t @ r'" "ci_eq t ps" by blast
      with True have "c # cs = (c # t) @ r' \<and> ci_eq (c # t) (p # ps)"
        by (simp add: ci_eq_def)
      then show "\<exists>t. c # cs = t @ r' \<and> ci_eq t (p # ps)" by blast
    qed
    with True 3 show ?thesis by simp
  qed
qed

lemma first_some_Some_mem: "first_some f xs = Some y \<Longrightarrow> \<exists>x \<in> set xs. f x = Some y"
  by (induction xs) (auto split: option.splits)

lemma opt_splits_mem:
  "(dash, r1) \<in> set (opt_splits d r) \<Longrightarrow> r = dash @ r1 \<and> (dash = [] \<or> dash = [d])"
  by (cases r) (auto split: if_splits)

lemma opt_splits_skip: "([], r) \<in> set (opt_splits d r)"
  by (cases r) auto

lemma plus_splits_NoneD:
  "first_some f (plus_splits P s) = None \<Longrightarrow> ys \<noteq> [] \<Longrightarrow> list_all P ys \<Longrightarrow> s = ys @ zs \<Longrightarrow>
   f (ys, zs) = None"
  unfolding plus_splits_None by blast

lemma match_tail_sound:
  assumes "match_tail g r = Some (d1, d2)"
  shows "\<exists>ws t ws' g'. r = d1 @ ws @ t @ ws' @ g' @ d2 \<and>
           d1 \<noteq> [] \<and> list_all is_digit d1 \<and> ws \<noteq> [] \<and> list_all is_space ws \<and>
           ci_eq t ''through'' \<and> ws' \<noteq> [] \<and> list_all is_space ws' \<and> ci_eq g' g \<and>
           d2 \<noteq> [] \<and> list_all is_digit d2"
proof -
  from plus_splits_Some [OF assms [unfolded match_tail_def]]
  obtain e1 r2 where e1: "e1 \<noteq> []" "list_all is_digit e1" "r = e1 @ r2"
    and s2: "first_some (\<lambda>(ws1, r3).
         case strip_ci ''through'' r3 of
           None \<Rightarrow> None
         | Some r4 \<Rightarrow>
             first_some (\<lambda>(ws2, r5).
               case strip_ci g r5 of
                 None \<Rightarrow> None
               | Some r6 \<Rightarrow>
                   first_some (\<lambda>(d2, r7). if r7 = [] then Some (e1, d2) else None)
                     (plus_splits is_digit r6))
               (plus_splits is_space r4))
         (plus_splits is_space r2) = Some (d1, d2)"
    by auto
  from plus_splits_Some [OF s2]
  obtain ws r3 r4 where ws: "ws \<noteq> []" "list_all is_space ws" "r2 = ws @ r3"
    and t: "strip_ci ''through'' r3 = Some r4"
    and s3: "first_some (\<lambda>(ws2, r5).
               case strip_ci g r5 of
                 None \<Rightarrow> None
               | Some r6 \<Rightarrow>
                   first_some (\<lambda>(d2, r7). if r7 = [] then Some (e1, d2) else None)
                     (plus_splits is_digit r6))
               (plus_splits is_space r4) = Some (d1, d2)"
    by (auto split: option.splits)
  from t obtain t' where t': "r3 = t' @ r4" "ci_eq t' ''through''"
    unfolding strip_ci_Some by blast
  from plus_splits_Some [OF s3]
  obtain ws' r5 r6 where ws': "ws' \<noteq> []" "list_all is_space ws'" "r4 = ws' @ r5"
    and g: "strip_ci g r5 = Some r6"
    and s4: "first_some (\<lambda>(d2, r7). if r7 = [] then Some (e1, d2) else None)
               (plus_splits is_digit r6) = Some (d1, d2)"
    by (auto split: option.splits)
  from g obtain g' where g': "r5 = g' @ r6" "ci_eq g' g"
    unfolding strip_ci_Some by blast
  from plus_splits_Some [OF s4]
  obtain e2 r7 where e2: "e2 \<noteq> []" "list_all is_digit e2" "r6 = e2 @ r7"
    and fin: "(if r7 = [] then Some (e1, e2) else None) = Some (d1, d2)"
    by auto
  from fin have "r7 = []" "e1 = d1" "e2 = d2" by (auto split: if_splits)
  with e1 ws t' ws' g' e2 show ?thesis by (intro exI [of _ ws] exI [of _ t'] exI [of _ ws'] exI [of _ g']) simp
qed

lemma match_tail_complete:
  assumes "d1 \<noteq> []" "list_all is_digit d1" "ws \<noteq> []" "list_all is_space ws"
    "ci_eq t ''through''" "ws' \<noteq> []" "list_all is_space ws'" "ci_eq g' g"
    "d2 \<noteq> []" "list_all is_digit d2"
  shows "match_tail g (d1 @ ws @ t @ ws' @ g' @ d2) \<noteq> None"
proof
  assume n: "match_tail g (d1 @ ws @ t @ ws' @ g' @ d2) = None"
  have t: "strip_ci ''through'' (t @ ws' @ g' @ d2) = Some (ws' @ g' @ d2)"
    unfolding strip_ci_Some using assms(5) by blast
  have g: "strip_ci g (g' @ d2) = Some d2"
    unfolding strip_ci_Some using assms(8) by blast
  from plus_splits_NoneD [OF n [unfolded match_tail_def] assms(1,2) refl]
  have n2: "first_some (\<lambda>(ws1, r3).
         case strip_ci ''through'' r3 of
           None \<Rightarrow> None
         | Some r4 \<Rightarrow>
             first_some (\<lambda>(ws2, r5).
               case strip_ci g r5 of
                 None \<Rightarrow> None
               | Some r6 \<Rightarrow>
                   first_some (\<lambda>(d2, r7). if r7 = [] then Some (d1, d2) else None)
                     (plus_splits is_digit r6))
               (plus_splits is_space r4))
         (plus_splits is_space (ws @ t @ ws' @ g' @ d2)) = None"
    by simp
  from plus_splits_NoneD [OF n2 assms(3,4) refl] t
  have n3: "first_some (\<lambda>(ws2, r5).
               case strip_ci g r5 of
                 None \<Rightarrow> None
               | Some r6 \<Rightarrow>
                   first_some (\<lambda>(d2, r7). if r7 = [] then Some (d1, d2) else None)
                     (plus_splits is_digit r6))
               (plus_splits is_space (ws' @ g' @ d2)) = None"
    by simp
  from plus_splits_NoneD [OF n3 assms(6,7) refl] g
  have n4: "first_some (\<lambda>(d2, r7). if r7 = [] then Some (d1, d2) else None)
                     (plus_splits is_digit d2) = None"
    by simp
  from plus_splits_NoneD [OF n4 assms(9,10), of "[]"]
  have "(if [] = ([]::string) then Some (d1, d2) else None) = None"
    by simp
  then show False by simp
qed

lemma is_dot_dash: "is_dot CHR ''-''"
  by (simp add: is_dot_def)

lemma match_range_sound:
  assumes "match_range s = Some (g, d1, d2)"
  shows "\<exists>ws t ws' g'. range_shape s g d1 ws t ws' g' d2"
proof -
  from plus_splits_Some [OF assms [unfolded match_range_def]]
  obtain a r0 where a: "a \<noteq> []" "list_all is_dot a" "s = a @ r0"
    and f: "first_some (\<lambda>(dash, r1).
         case match_tail (a @ dash) r1 of
           None \<Rightarrow> None
         | Some (d1, d2) \<Rightarrow> Some (a @ dash, d1, d2))
         (opt_splits CHR ''-'' r0) = Some (g, d1, d2)"
    by auto
  from first_some_Some_mem [OF f] obtain dash r1 where
    m: "(dash, r1) \<in> set (opt_splits CHR ''-'' r0)"
    and c: "(case match_tail (a @ dash) r1 of
           None \<Rightarrow> None
         | Some (d1, d2) \<Rightarrow> Some (a @ dash, d1, d2)) = Some (g, d1, d2)"
    by auto
  from c have g: "g = a @ dash" and mt: "match_tail g r1 = Some (d1, d2)"
    by (auto split: option.splits)
  from opt_splits_mem [OF m] have r0: "r0 = dash @ r1" and d: "dash = [] \<or> dash = [CHR ''-'']"
    by simp_all
  from a d g have gd: "g \<noteq> []" "list_all is_dot g" using is_dot_dash by auto
  from a r0 g have s: "s = g @ r1" by simp
  from match_tail_sound [OF mt] gd s show ?thesis
    unfolding range_shape_def by force
qed

lemma range_shape_tail:
  assumes "range_shape s g d1 ws t ws' g' d2"
  shows "g \<noteq> [] \<and> list_all is_dot g \<and> (\<exists>r. s = g @ r \<and> match_tail g r \<noteq> None)"
proof -
  from assms have "match_tail g (d1 @ ws @ t @ ws' @ g' @ d2) \<noteq> None"
    unfolding range_shape_def by (intro match_tail_complete) simp_all
  with assms show ?thesis unfolding range_shape_def by blast
qed

lemma dash_alternatives_None:
  assumes "first_some (\<lambda>(dash, r1).
         case match_tail (a @ dash) r1 of
           None \<Rightarrow> None
         | Some (d1, d2) \<Rightarrow> Some (a @ dash, d1, d2))
         (opt_splits CHR ''-'' r0) = None"
  shows "match_tail a r0 = None"
proof -
  from assms [unfolded first_some_None] opt_splits_skip [of r0 "CHR ''-''"]
  have "(case match_tail (a @ []) r0 of
           None \<Rightarrow> None
         | Some (d1, d2) \<Rightarrow> Some (a @ [], d1, d2)) = None"
    by fastforce
  then show ?thesis by (auto split: option.splits)
qed

lemma match_range_complete:
  assumes "range_shape s g d1 ws t ws' g' d2"
  shows "match_range s \<noteq> None"
proof
  assume n: "match_range s = None"
  from range_shape_tail [OF assms] obtain r where
    g: "g \<noteq> []" "list_all is_dot g" "s = g @ r" and mt: "match_tail g r \<noteq> None" by blast
  from plus_splits_NoneD [OF n [unfolded match_range_def] g]
  have "first_some (\<lambda>(dash, r1).
         case match_tail (g @ dash) r1 of
           None \<Rightarrow> None
         | Some (d1, d2) \<Rightarrow> Some (g @ dash, d1, d2))
         (opt_splits CHR ''-'' r) = None"
    by simp
  from dash_alternatives_None [OF this] mt show False by simp
qed

lemma match_range_longest:
  assumes "match_range s = Some (g, d1, d2)"
    and "range_shape s g2 e1 ws t ws' g2' e2"
  shows "length g2 \<le> length g"
proof (rule ccontr)
  assume "\<not> length g2 \<le> length g"
  then have lt: "length g < length g2" by simp
  from plus_splits_Some [OF assms(1) [unfolded match_range_def]]
  obtain a r0 where a: "a \<noteq> []" "list_all is_dot a" "s = a @ r0"
    and f: "first_some (\<lambda>(dash, r1).
         case match_tail (a @ dash) r1 of
           None \<Rightarrow> None
         | Some (d1, d2) \<Rightarrow> Some (a @ dash, d1, d2))
         (opt_splits CHR ''-'' r0) = Some (g, d1, d2)"
    and mx: "\<forall>ys' zs'. list_all is_dot ys' \<and> s = ys' @ zs' \<and> length a < length ys' \<longrightarrow>
        (case (ys', zs') of (a, r0) \<Rightarrow> first_some (\<lambda>(dash, r1).
         case match_tail (a @ dash) r1 of
           None \<Rightarrow> None
         | Some (d1, d2) \<Rightarrow> Some (a @ dash, d1, d2))
         (opt_splits CHR ''-'' r0)) = None"
    by auto
  from first_some_Some_mem [OF f] have "\<exists>dash. g = a @ dash"
    by (auto split: option.splits)
  then have "length a \<le> length g" by auto
  with lt have la: "length a < length g2" by simp
  from range_shape_tail [OF assms(2)] obtain r where
    g2: "list_all is_dot g2" "s = g2 @ r" and mt: "match_tail g2 r \<noteq> None" by blast
  from mx g2 la have "first_some (\<lambda>(dash, r1).
         case match_tail (g2 @ dash) r1 of
           None \<Rightarrow> None
         | Some (d1, d2) \<Rightarrow> Some (g2 @ dash, d1, d2))
         (opt_splits CHR ''-'' r) = None"
    by auto
  from dash_alternatives_None [OF this] mt show False by simp
qed

lemma digit_not_space: "is_digit c \<Longrightarrow> \<not> is_space c"
  by (auto simp: is_digit_def is_space_def)

lemma canonicalize_cases:
  "canonicalize b = b \<or>
   (65 \<le> (of_char (canonicalize b) :: nat) \<and> (of_char (canonicalize b) :: nat) \<le> 90) \<or>
   (192 \<le> (of_char (canonicalize b) :: nat) \<and> (of_char (canonicalize b) :: nat) \<le> 222)"
proof (cases "(97 \<le> (of_char b :: nat) \<and> (of_char b :: nat) \<le> 122) \<or>
              (224 \<le> (of_char b :: nat) \<and> (of_char b :: nat) \<le> 254 \<and> (of_char b :: nat) \<noteq> 247)")
  case False
  then have "canonicalize b = b" unfolding canonicalize_def by (rule if_not_P)
  then show ?thesis by (rule disjI1)
next
  case True
  then have "canonicalize b = char_of ((of_char b :: nat) - 32)"
    unfolding canonicalize_def by (rule if_P)
  then have "(of_char (canonicalize b) :: nat) = ((of_char b :: nat) - 32) mod 256" by simp
  moreover from True have "(of_char b :: nat) - 32 < 256" by arith
  ultimately have "(of_char (canonicalize b) :: nat) = (of_char b :: nat) - 32"
    by (simp only: mod_less)
  with True show ?thesis by arith
qed

lemma canonicalize_space:
  assumes "is_space a" "canonicalize b = canonicalize a"
  shows "b = a"
proof -
  from assms(1) have ca: "canonicalize a = a"
    by (auto simp: canonicalize_def is_space_def)
  from canonicalize_cases [of b] assms ca show ?thesis
    by (auto simp: is_space_def)
qed

lemma ci_eq_length: "ci_eq a b \<Longrightarrow> length a = length b"
  unfolding ci_eq_def by (rule map_eq_imp_length_eq)

lemma ci_eq_sym: "ci_eq a b \<Longrightarrow> ci_eq b a"
  by (simp add: ci_eq_def)

lemma ci_eq_trans: "ci_eq a b \<Longrightarrow> ci_eq b c \<Longrightarrow> ci_eq a c"
  by (simp add: ci_eq_def)

lemma through_head:
  assumes "ci_eq t ''through''"
  shows "t \<noteq> [] \<and> \<not> is_space (hd t)"
proof -
  from assms obtain c t' where t: "t = c # t'" by (cases t) (auto simp: ci_eq_def)
  with assms have c: "canonicalize c = canonicalize CHR ''t''" by (simp add: ci_eq_def)
  have "\<not> is_space c"
  proof
    assume "is_space c"
    from canonicalize_space [OF this c [symmetric]] have "CHR ''t'' = c" .
    with \<open>is_space c\<close> show False by (auto simp: is_space_def)
  qed
  with t show ?thesis by simp
qed

lemma run_unique:
  assumes "list_all P a" "list_all P b" "a @ x = b @ y"
    "x \<noteq> []" "\<not> P (hd x)" "y \<noteq> []" "\<not> P (hd y)"
  shows "a = b \<and> x = y"
proof -
  from assms(4,5) have tx: "takeWhile P x = []" by (cases x) auto
  from assms(6,7) have ty: "takeWhile P y = []" by (cases y) auto
  from assms(1) have "takeWhile P (a @ x) = a @ takeWhile P x"
    by (intro takeWhile_append2) (simp add: list_all_iff)
  moreover from assms(2) have "takeWhile P (b @ y) = b @ takeWhile P y"
    by (intro takeWhile_append2) (simp add: list_all_iff)
  ultimately have "a = b" using tx ty assms(3) by simp
  with assms(3) show ?thesis by simp
qed

lemma shifted_copy_impossible:
  assumes "list_all is_space x" "x \<noteq> []" "length g' = length h'" "ci_eq g' h'"
    "list_all is_digit d2" "g' @ d2 = x @ h' @ e2"
  shows False
  using assms
proof (induction g' arbitrary: h' x)
  case Nil
  then obtain c x' where x: "x = c # x'" by (cases x) auto
  with Nil have "is_space c" "is_digit c" by auto
  then show False using digit_not_space by blast
next
  case (Cons a g'')
  from Cons.prems(3) obtain b h'' where h: "h' = b # h''" by (cases h') auto
  from Cons.prems(2) obtain c x' where x: "x = c # x'" by (cases x) auto
  from Cons.prems(6) h x have ac: "a = c" and eq: "g'' @ d2 = (x' @ [b]) @ h'' @ e2" by simp_all
  from Cons.prems(1) x ac have sa: "is_space a" by simp
  from Cons.prems(4) h have "canonicalize b = canonicalize a" and ci: "ci_eq g'' h''"
    by (simp_all add: ci_eq_def)
  with canonicalize_space [OF sa] have "b = a" by blast
  with sa Cons.prems(1) x have sp: "list_all is_space (x' @ [b])" by simp
  from Cons.prems(3) h have len: "length g'' = length h''" by simp
  from Cons.IH [OF sp _ len ci Cons.prems(5) eq] show False by simp
qed

lemma list_all_append_right: "list_all P (a @ b) \<Longrightarrow> list_all P b"
  by simp

lemma range_shape_unique:
  assumes "range_shape s g d1 ws t ws' g' d2" and "range_shape s g e1 es u es' h' e2"
  shows "d1 = e1 \<and> d2 = e2"
proof -
  note A = assms(1) [unfolded range_shape_def] and B = assms(2) [unfolded range_shape_def]
  from A B have eq0: "d1 @ (ws @ t @ ws' @ g' @ d2) = e1 @ (es @ u @ es' @ h' @ e2)" by simp
  have "d1 = e1 \<and> ws @ t @ ws' @ g' @ d2 = es @ u @ es' @ h' @ e2"
  proof (rule run_unique [OF _ _ eq0])
    show "list_all is_digit d1" "list_all is_digit e1" using A B by simp_all
    show "ws @ t @ ws' @ g' @ d2 \<noteq> []" "es @ u @ es' @ h' @ e2 \<noteq> []" using A B by simp_all
    from A have "is_space (hd (ws @ t @ ws' @ g' @ d2))" by (cases ws) auto
    then show "\<not> is_digit (hd (ws @ t @ ws' @ g' @ d2))" using digit_not_space by blast
    from B have "is_space (hd (es @ u @ es' @ h' @ e2))" by (cases es) auto
    then show "\<not> is_digit (hd (es @ u @ es' @ h' @ e2))" using digit_not_space by blast
  qed
  then have d1: "d1 = e1" and eq1: "ws @ (t @ ws' @ g' @ d2) = es @ (u @ es' @ h' @ e2)"
    by simp_all
  have "ws = es \<and> t @ ws' @ g' @ d2 = u @ es' @ h' @ e2"
  proof (rule run_unique [OF _ _ eq1])
    show "list_all is_space ws" "list_all is_space es" using A B by simp_all
    from A through_head [of t] show "t @ ws' @ g' @ d2 \<noteq> []"
      "\<not> is_space (hd (t @ ws' @ g' @ d2))" by simp_all
    from B through_head [of u] show "u @ es' @ h' @ e2 \<noteq> []"
      "\<not> is_space (hd (u @ es' @ h' @ e2))" by simp_all
  qed
  then have eq2: "t @ (ws' @ g' @ d2) = u @ (es' @ h' @ e2)" by simp
  from A B have "length t = length u" using ci_eq_length by fastforce
  with eq2 have eq3: "ws' @ (g' @ d2) = es' @ (h' @ e2)" by simp
  from A B have len: "length g' = length h'" and ci: "ci_eq g' h'"
    using ci_eq_length [of g' g] ci_eq_length [of h' g] ci_eq_trans [OF _ ci_eq_sym, of g' g h']
    by simp_all
  from eq3 obtain x where
    x: "(ws' = es' @ x \<and> x @ g' @ d2 = h' @ e2) \<or> (ws' @ x = es' \<and> g' @ d2 = x @ h' @ e2)"
    unfolding append_eq_append_conv2 by blast
  have "x = []"
  proof (rule ccontr)
    assume ne: "x \<noteq> []"
    from x show False
    proof
      assume c: "ws' = es' @ x \<and> x @ g' @ d2 = h' @ e2"
      with A have sp: "list_all is_space x" by simp
      from c have "h' @ e2 = x @ g' @ d2" by simp
      from shifted_copy_impossible [OF sp ne len [symmetric] ci_eq_sym [OF ci] _ this] B
      show False by simp
    next
      assume c: "ws' @ x = es' \<and> g' @ d2 = x @ h' @ e2"
      with B have sp: "list_all is_space x" by auto
      from c have "g' @ d2 = x @ h' @ e2" by simp
      from shifted_copy_impossible [OF sp ne len ci _ this] A
      show False by simp
    qed
  qed
  with x len have "d2 = e2" by auto
  with d1 show ?thesis by simp
qed

text \<open>
  What \<open>expandRequirementRange\<close> computes: where the input has the shape, it takes the
  longest prefix \<open>g\<close> for which it has, and enumerates from the digits after that prefix;
  where the input does not have the shape, it returns the input.
\<close>

lemma expand_longest_prefix:
  assumes sh: "range_shape s g d1 ws t ws' g' d2"
    and mx: "\<And>g2 e1 ws2 t2 ws2' g2' e2.
               range_shape s g2 e1 ws2 t2 ws2' g2' e2 \<Longrightarrow> length g2 \<le> length g"
  shows "expandRequirementRange s =
           (if parseInt d1 > parseInt d2 then [s]
            else map (\<lambda>i. g @ padStart (length d1) (String_nat i))
                   [parseInt d1 ..< Suc (parseInt d2)])"
proof -
  from match_range_complete [OF sh] obtain h e1 e2 where
    m: "match_range s = Some (h, e1, e2)" by auto
  from match_range_sound [OF m] obtain es u es' h' where
    sh': "range_shape s h e1 es u es' h' e2" by blast
  from match_range_longest [OF m sh] mx [OF sh'] have "length g = length h" by simp
  moreover from sh sh' have "\<exists>r r'. g @ r = h @ r'" unfolding range_shape_def by metis
  ultimately have gh: "g = h" by auto
  from range_shape_unique [OF sh sh' [folded gh]] have "d1 = e1" "d2 = e2" by simp_all
  with m gh show ?thesis by (simp add: expandRequirementRange_def Let_def)
qed

lemma expand_no_shape:
  assumes "\<And>g d1 ws t ws' g' d2. \<not> range_shape s g d1 ws t ws' g' d2"
  shows "expandRequirementRange s = [s]"
proof (cases "match_range s")
  case None
  then show ?thesis by (simp add: expandRequirementRange_def)
next
  case (Some m)
  then obtain g d1 d2 where "match_range s = Some (g, d1, d2)" by (cases m) auto
  from match_range_sound [OF this] assms show ?thesis by blast
qed

text \<open>Decimal numerals: \<open>parseInt\<close>, \<open>String_nat\<close> and \<open>padStart\<close> on digit strings.\<close>

lemma is_digit_digit_char: "d < 10 \<Longrightarrow> is_digit (digit_char d)"
  by (simp add: is_digit_def digit_char_def)

lemma digit_val_digit_char: "d < 10 \<Longrightarrow> digit_val (digit_char d) = d"
  by (simp add: digit_val_def digit_char_def)

lemma digit_val_less: "is_digit c \<Longrightarrow> digit_val c < 10"
  by (auto simp: is_digit_def digit_val_def)

lemma digit_val_inj: "is_digit a \<Longrightarrow> is_digit b \<Longrightarrow> digit_val a = digit_val b \<Longrightarrow> a = b"
proof -
  assume a: "is_digit a" and b: "is_digit b" and v: "digit_val a = digit_val b"
  from a have "48 \<le> (of_char a :: nat)" by (simp add: is_digit_def)
  moreover from b have "48 \<le> (of_char b :: nat)" by (simp add: is_digit_def)
  moreover from v have "(of_char a :: nat) - 48 = of_char b - 48" by (simp add: digit_val_def)
  ultimately have "(of_char a :: nat) = of_char b" by arith
  then show "a = b" by simp
qed

lemma parseInt_snoc: "parseInt (ds @ [c]) = 10 * parseInt ds + digit_val c"
  by (simp add: parseInt_def)

lemma parseInt_append: "parseInt (a @ b) = parseInt a * 10 ^ length b + parseInt b"
proof (induction b rule: rev_induct)
  case Nil
  show ?case by (simp add: parseInt_def)
next
  case (snoc c b)
  have "parseInt (a @ b @ [c]) = 10 * parseInt (a @ b) + digit_val c"
    using parseInt_snoc [of "a @ b" c] by simp
  with snoc show ?case by (simp add: parseInt_snoc algebra_simps)
qed

lemma parseInt_bound: "list_all is_digit ds \<Longrightarrow> parseInt ds < 10 ^ length ds"
proof (induction ds rule: rev_induct)
  case Nil
  show ?case by (simp add: parseInt_def)
next
  case (snoc c ds)
  then have "parseInt ds < 10 ^ length ds" and "digit_val c < 10"
    by (simp_all add: digit_val_less)
  then have "10 * parseInt ds + digit_val c < 10 * 10 ^ length ds" by arith
  then show ?case by (simp add: parseInt_snoc)
qed

lemma parseInt_inj:
  "list_all is_digit a \<Longrightarrow> list_all is_digit b \<Longrightarrow> length a = length b \<Longrightarrow>
   parseInt a = parseInt b \<Longrightarrow> a = b"
proof (induction a arbitrary: b rule: rev_induct)
  case Nil
  then show ?case by simp
next
  case (snoc x a)
  from snoc.prems(3) obtain y b' where b: "b = b' @ [y]"
    by (cases b rule: rev_cases) auto
  from snoc.prems b have dx: "is_digit x" and dy: "is_digit y"
    and da: "list_all is_digit a" and db: "list_all is_digit b'"
    and len: "length a = length b'"
    and eq: "10 * parseInt a + digit_val x = 10 * parseInt b' + digit_val y"
    by (simp_all add: parseInt_snoc)
  from digit_val_less [OF dx] digit_val_less [OF dy] eq
  have "digit_val x = digit_val y" and "parseInt a = parseInt b'" by arith+
  with snoc.IH [OF da db len] digit_val_inj [OF dx dy] b show ?case by simp
qed

lemma String_nat_digits: "list_all is_digit (String_nat n)"
proof (induction n rule: String_nat.induct)
  case (1 n)
  show ?case
  proof (cases "n < 10")
    case True
    then show ?thesis by (simp add: String_nat.simps [of n] is_digit_digit_char)
  next
    case False
    with "1" show ?thesis by (simp add: String_nat.simps [of n] is_digit_digit_char)
  qed
qed

lemma parseInt_String_nat: "parseInt (String_nat n) = n"
proof (induction n rule: String_nat.induct)
  case (1 n)
  show ?case
  proof (cases "n < 10")
    case True
    then show ?thesis
      by (simp add: String_nat.simps [of n] parseInt_def digit_val_digit_char)
  next
    case False
    with "1" show ?thesis
      by (simp add: String_nat.simps [of n] parseInt_snoc digit_val_digit_char)
  qed
qed

lemma String_nat_length: "n < 10 ^ k \<Longrightarrow> 0 < k \<Longrightarrow> length (String_nat n) \<le> k"
proof (induction n arbitrary: k rule: String_nat.induct)
  case (1 n)
  show ?case
  proof (cases "n < 10")
    case True
    with "1.prems" show ?thesis by (simp add: String_nat.simps [of n])
  next
    case False
    from "1.prems" obtain k' where k: "k = Suc k'" by (cases k) auto
    with False "1.prems" have "0 < k'" by (cases k') auto
    moreover from "1.prems" k have "n div 10 < 10 ^ k'" by (simp add: less_mult_imp_div_less)
    ultimately have "length (String_nat (n div 10)) \<le> k'" using "1.IH" [OF False] by blast
    with False k show ?thesis by (simp add: String_nat.simps [of n])
  qed
qed

lemma parseInt_zeros: "parseInt (replicate m CHR ''0'' @ x) = parseInt x"
proof -
  have "parseInt (replicate m CHR ''0'') = 0"
  proof (induction m)
    case 0
    show ?case by (simp add: parseInt_def)
  next
    case (Suc m)
    have "replicate (Suc m) CHR ''0'' = replicate m CHR ''0'' @ [CHR ''0'']"
      by (simp add: replicate_append_same)
    with Suc show ?case by (simp only: parseInt_snoc) (simp add: digit_val_def)
  qed
  then show ?thesis by (simp add: parseInt_append)
qed

lemma is_digit_zero: "is_digit CHR ''0''"
  by (simp add: is_digit_def)

lemma padStart_String_nat:
  assumes "n < 10 ^ k" "0 < k"
  shows "length (padStart k (String_nat n)) = k \<and>
         list_all is_digit (padStart k (String_nat n)) \<and>
         parseInt (padStart k (String_nat n)) = n"
  using String_nat_length [OF assms] String_nat_digits [of n] is_digit_zero
  by (auto simp: padStart_def parseInt_zeros parseInt_String_nat list_all_iff)

text \<open>Padding the number of a digit string to the length of the string gives the string
  back.\<close>

lemma padStart_parseInt:
  assumes "list_all is_digit ds" "ds \<noteq> []"
  shows "padStart (length ds) (String_nat (parseInt ds)) = ds"
proof -
  from assms(2) have k: "0 < length ds" by simp
  note p = padStart_String_nat [OF parseInt_bound [OF assms(1)] k]
  from p assms(1) show ?thesis by (intro parseInt_inj) simp_all
qed

lemma upt_shift: "map (\<lambda>i. a + i) [m ..< n] = [a + m ..< a + n]"
  by (induction n) (auto simp: not_less)

text \<open>The longest prefix extends every other prefix by digits common to both numbers.\<close>

lemma canonicalize_digit:
  assumes "is_digit a" "canonicalize b = canonicalize a"
  shows "b = a"
proof -
  from assms(1) have ca: "canonicalize a = a"
    by (auto simp: canonicalize_def is_digit_def)
  from canonicalize_cases [of b] assms ca show ?thesis
    by (auto simp: is_digit_def)
qed

lemma ci_eq_digits: "list_all is_digit c \<Longrightarrow> ci_eq x c \<Longrightarrow> x = c"
proof (induction c arbitrary: x)
  case Nil
  then show ?case by (simp add: ci_eq_def)
next
  case (Cons a c)
  from Cons.prems(2) obtain b x' where x: "x = b # x'" by (cases x) (auto simp: ci_eq_def)
  with Cons.prems have "canonicalize b = canonicalize a" "ci_eq x' c" "is_digit a"
    "list_all is_digit c" by (simp_all add: ci_eq_def)
  with Cons.IH [of x'] canonicalize_digit [of a b] x show ?case by simp
qed

lemma through_no_digit:
  assumes "ci_eq t ''through''" "ch \<in> set t"
  shows "\<not> is_digit ch"
proof
  assume d: "is_digit ch"
  then have "canonicalize ch = ch" by (auto simp: canonicalize_def is_digit_def)
  with assms(2) have "ch \<in> set (map canonicalize t)" by force
  with assms(1) have "ch \<in> set (map canonicalize ''through'')" by (simp add: ci_eq_def)
  moreover have "list_all (\<lambda>c. \<not> is_digit c) (map canonicalize ''through'')" by code_simp
  ultimately show False using d unfolding list_all_iff by blast
qed

lemma ci_eq_append_split:
  assumes "ci_eq h (g @ c)"
  shows "\<exists>h1 h2. h = h1 @ h2 \<and> ci_eq h1 g \<and> ci_eq h2 c"
proof -
  from assms have "map canonicalize h = map canonicalize g @ map canonicalize c"
    by (simp add: ci_eq_def)
  then obtain us vs where "h = us @ vs" "map canonicalize g = map canonicalize us"
    "map canonicalize c = map canonicalize vs"
    unfolding map_eq_append_conv by blast
  then show ?thesis by (auto simp: ci_eq_def)
qed

lemma append_eq_longer:
  assumes "a @ x = b @ y" "length a \<le> length b"
  shows "\<exists>c. b = a @ c \<and> x = c @ y"
proof -
  from assms(1) obtain z where
    z: "(a = b @ z \<and> z @ x = y) \<or> (a @ z = b \<and> x = z @ y)"
    unfolding append_eq_append_conv2 by blast
  then show ?thesis
  proof
    assume "a = b @ z \<and> z @ x = y"
    with assms(2) have "z = []" "a = b" "x = y" by auto
    then show ?thesis by simp
  next
    assume "a @ z = b \<and> x = z @ y"
    then show ?thesis by blast
  qed
qed

lemma longest_extends:
  assumes sh: "range_shape s g d1 ws t ws' g' d2"
    and sh': "range_shape s h e1 es u es' h' e2"
    and le: "length g \<le> length h"
    and len: "length d1 = length d2"
  shows "\<exists>c. h = g @ c \<and> d1 = c @ e1 \<and> d2 = c @ e2 \<and> list_all is_digit c"
proof -
  note A = sh [unfolded range_shape_def] and B = sh' [unfolded range_shape_def]
  let ?W = "ws @ t @ ws'"
  from A B have "g @ (d1 @ ?W @ g' @ d2) = h @ (e1 @ es @ u @ es' @ h' @ e2)" by simp
  from append_eq_longer [OF this le] obtain c where
    c: "h = g @ c" and R: "d1 @ (?W @ g' @ d2) = c @ (e1 @ es @ u @ es' @ h' @ e2)" by blast
  from A B have l7: "length t = 7" "length u = 7" "length g' = length g" "length h' = length h"
    using ci_eq_length [of t "''through''"] ci_eq_length [of u "''through''"]
      ci_eq_length [of g' g] ci_eq_length [of h' h] by simp_all
  have lt: "length c < length d1"
  proof (rule ccontr)
    assume "\<not> length c < length d1"
    then have "length d1 \<le> length c" by simp
    from append_eq_longer [OF R this] obtain y where
      y: "c = d1 @ y" and W: "?W @ (g' @ d2) = y @ (e1 @ es @ u @ es' @ h' @ e2)" by auto
    show False
    proof (cases "length y < length ?W")
      case True
      from W [symmetric] have "\<exists>z. ?W = y @ z \<and> e1 @ es @ u @ es' @ h' @ e2 = z @ (g' @ d2)"
        by (intro append_eq_longer) (use True in simp_all)
      then obtain z where z: "?W = y @ z" "e1 @ es @ u @ es' @ h' @ e2 = z @ (g' @ d2)" by blast
      with True have zne: "z \<noteq> []" by auto
      from B obtain a e1' where e1: "e1 = a # e1'" "is_digit a" by (cases e1) auto
      with z zne have "a \<in> set z" by (cases z) auto
      with z(1) have "a \<in> set ?W" by (metis Un_iff set_append)
      then have "a \<in> set ws \<or> a \<in> set t \<or> a \<in> set ws'" by auto
      with A e1(2) through_no_digit [of t a] digit_not_space [of a] show False
        by (auto simp: list_all_iff)
    next
      case False
      from A B have "length (g @ d1 @ ?W @ g' @ d2) =
                     length (h @ e1 @ es @ u @ es' @ h' @ e2)" by simp
      moreover from B have "1 \<le> length e1" "1 \<le> length es" "1 \<le> length es'" "1 \<le> length e2"
        by (simp_all add: Suc_le_eq)
      moreover from c y have "length h = length g + length d1 + length y" by simp
      ultimately show False using False l7 len by simp
    qed
  qed
  from R [symmetric] have "\<exists>f. d1 = c @ f \<and> e1 @ es @ u @ es' @ h' @ e2 = f @ (?W @ g' @ d2)"
    by (intro append_eq_longer) (use lt in simp_all)
  then obtain f where f: "d1 = c @ f"
    and R': "f @ (ws @ t @ ws' @ g' @ d2) = e1 @ (es @ u @ es' @ h' @ e2)" by auto
  from f lt have fne: "f \<noteq> []" by auto
  from A f have dc: "list_all is_digit c" and df: "list_all is_digit f" by simp_all
  have "f = e1 \<and> ws @ t @ ws' @ g' @ d2 = es @ u @ es' @ h' @ e2"
  proof (rule run_unique [OF _ _ R'])
    show "list_all is_digit f" "list_all is_digit e1" using df B by simp_all
    show "ws @ t @ ws' @ g' @ d2 \<noteq> []" "es @ u @ es' @ h' @ e2 \<noteq> []" using A B by simp_all
    from A have "is_space (hd (ws @ t @ ws' @ g' @ d2))" by (cases ws) auto
    then show "\<not> is_digit (hd (ws @ t @ ws' @ g' @ d2))" using digit_not_space by blast
    from B have "is_space (hd (es @ u @ es' @ h' @ e2))" by (cases es) auto
    then show "\<not> is_digit (hd (es @ u @ es' @ h' @ e2))" using digit_not_space by blast
  qed
  then have fe: "f = e1" and eq1: "ws @ (t @ ws' @ g' @ d2) = es @ (u @ es' @ h' @ e2)"
    by simp_all
  have "ws = es \<and> t @ ws' @ g' @ d2 = u @ es' @ h' @ e2"
  proof (rule run_unique [OF _ _ eq1])
    show "list_all is_space ws" "list_all is_space es" using A B by simp_all
    from A through_head [of t] show "t @ ws' @ g' @ d2 \<noteq> []"
      "\<not> is_space (hd (t @ ws' @ g' @ d2))" by simp_all
    from B through_head [of u] show "u @ es' @ h' @ e2 \<noteq> []"
      "\<not> is_space (hd (u @ es' @ h' @ e2))" by simp_all
  qed
  then have eq2: "t @ (ws' @ g' @ d2) = u @ (es' @ h' @ e2)" by simp
  with l7 have eq3: "ws' @ (g' @ d2) = es' @ (h' @ e2)" by simp
  from B c have "ci_eq h' (g @ c)" by simp
  from ci_eq_append_split [OF this] obtain h1 h2 where
    h': "h' = h1 @ h2" and h1: "ci_eq h1 g" and h2: "ci_eq h2 c" by blast
  from ci_eq_digits [OF dc h2] have h2c: "h2 = c" .
  from A h1 have ci: "ci_eq g' h1" and lg: "length g' = length h1"
    using ci_eq_trans [OF _ ci_eq_sym, of g' g h1] ci_eq_length [of g' g] ci_eq_length [of h1 g]
    by simp_all
  from eq3 h' h2c have eq4: "ws' @ (g' @ d2) = es' @ (h1 @ (c @ e2))" by simp
  from B dc have dce: "list_all is_digit (c @ e2)" by simp
  from eq4 obtain x where
    x: "(ws' = es' @ x \<and> x @ g' @ d2 = h1 @ c @ e2) \<or>
        (ws' @ x = es' \<and> g' @ d2 = x @ h1 @ c @ e2)"
    using append_eq_append_conv2 [of ws' "g' @ d2" es' "h1 @ c @ e2"] by auto
  have "x = []"
  proof (rule ccontr)
    assume ne: "x \<noteq> []"
    from x show False
    proof
      assume k: "ws' = es' @ x \<and> x @ g' @ d2 = h1 @ c @ e2"
      with A have sp: "list_all is_space x" by simp
      from k have "h1 @ (c @ e2) = x @ g' @ d2" by simp
      from shifted_copy_impossible [OF sp ne lg [symmetric] ci_eq_sym [OF ci] dce this]
      show False .
    next
      assume k: "ws' @ x = es' \<and> g' @ d2 = x @ h1 @ c @ e2"
      with B have sp: "list_all is_space x" by auto
      from k have "g' @ d2 = x @ h1 @ (c @ e2)" by simp
      from shifted_copy_impossible [OF sp ne lg ci _ this] A
      show False by simp
    qed
  qed
  with x lg have "d2 = c @ e2" by auto
  with c f fe dc show ?thesis by blast
qed

text \<open>
  Where the two digit strings of the shape have the same length, the result is the
  enumeration from the start to the end number, padded to the width of the start digits
  and prefixed, or the input itself when the start exceeds the end, for every way of
  reading the input in the shape.
\<close>

lemma expand_equal_width:
  assumes sh: "range_shape s g d1 ws t ws' g' d2"
    and len: "length d1 = length d2"
  shows "expandRequirementRange s =
           (if parseInt d1 > parseInt d2 then [s]
            else map (\<lambda>i. g @ padStart (length d1) (String_nat i))
                   [parseInt d1 ..< Suc (parseInt d2)])"
proof -
  from match_range_complete [OF sh] obtain h e1 e2 where
    m: "match_range s = Some (h, e1, e2)" by auto
  from match_range_sound [OF m] obtain es u es' h' where
    sh': "range_shape s h e1 es u es' h' e2" by blast
  from longest_extends [OF sh sh' match_range_longest [OF m sh] len] obtain c where
    c: "h = g @ c" "d1 = c @ e1" "d2 = c @ e2" and dc: "list_all is_digit c" by blast
  from sh' have de: "list_all is_digit e1" "list_all is_digit e2" "e1 \<noteq> []"
    unfolding range_shape_def by simp_all
  define k where "k = length e1"
  from c len have k2: "length e2 = k" by (simp add: k_def)
  from de(3) have kpos: "0 < k" by (simp add: k_def)
  define a where "a = parseInt c * 10 ^ k"
  have n1: "parseInt d1 = a + parseInt e1" and n2: "parseInt d2 = a + parseInt e2"
    by (simp_all add: c parseInt_append a_def k_def k2 [unfolded k_def])
  have code: "expandRequirementRange s =
           (if parseInt e1 > parseInt e2 then [s]
            else map (\<lambda>i. h @ padStart k (String_nat i)) [parseInt e1 ..< Suc (parseInt e2)])"
    using m by (simp add: expandRequirementRange_def Let_def k_def)
  have el: "\<And>i. i \<in> set [parseInt e1 ..< Suc (parseInt e2)] \<Longrightarrow>
              h @ padStart k (String_nat i) = g @ padStart (length d1) (String_nat (a + i))"
  proof -
    fix i assume "i \<in> set [parseInt e1 ..< Suc (parseInt e2)]"
    then have "i \<le> parseInt e2" by auto
    with parseInt_bound [OF de(2)] k2 have ib: "i < 10 ^ k" by simp
    note p = padStart_String_nat [OF ib kpos]
    let ?ds = "c @ padStart k (String_nat i)"
    from p dc have d: "list_all is_digit ?ds" and ne: "?ds \<noteq> []"
      and l: "length ?ds = length d1" and v: "parseInt ?ds = a + i"
      using kpos by (auto simp: parseInt_append a_def c k_def)
    from padStart_parseInt [OF d ne] l v
    have "padStart (length d1) (String_nat (a + i)) = ?ds" by simp
    with c show "h @ padStart k (String_nat i) = g @ padStart (length d1) (String_nat (a + i))"
      by simp
  qed
  have "map (\<lambda>i. g @ padStart (length d1) (String_nat i)) [parseInt d1 ..< Suc (parseInt d2)] =
        map (\<lambda>i. g @ padStart (length d1) (String_nat (a + i))) [parseInt e1 ..< Suc (parseInt e2)]"
  proof -
    have "[parseInt d1 ..< Suc (parseInt d2)] = map (\<lambda>i. a + i) [parseInt e1 ..< Suc (parseInt e2)]"
      unfolding n1 n2 upt_shift by simp
    then show ?thesis by (simp add: comp_def)
  qed
  also have "\<dots> = map (\<lambda>i. h @ padStart k (String_nat i)) [parseInt e1 ..< Suc (parseInt e2)]"
    by (rule map_cong [OF refl]) (simp add: el)
  finally have M: "map (\<lambda>i. g @ padStart (length d1) (String_nat i))
                     [parseInt d1 ..< Suc (parseInt d2)] =
                   map (\<lambda>i. h @ padStart k (String_nat i))
                     [parseInt e1 ..< Suc (parseInt e2)]" .
  have cmp: "(parseInt d2 < parseInt d1) = (parseInt e2 < parseInt e1)"
    using n1 n2 by simp
  show ?thesis by (simp only: code cmp M)
qed

lemma expand_documented_examples:
  "expandRequirementRange ''P-001 through P-005'' =
     [''P-001'', ''P-002'', ''P-003'', ''P-004'', ''P-005''] \<and>
   expandRequirementRange ''P-005 through P-001'' = [''P-005 through P-001''] \<and>
   expandRequirementRange ''some random string'' = [''some random string'']"
  by code_simp

text \<open>
  Claim C8. Requirement range expansion: an input of the shape
  \<open><prefix><digits> through <prefix><digits>\<close> expands to the inclusive enumeration from the
  start integer to the end integer. The code does otherwise where the two digit strings
  begin alike and differ in length: the greedy first group of the regular expression takes
  the common leading digit into the prefix. \<open>T-10 through T-100\<close> has the shape with prefix
  \<open>T-\<close>, start 10 and end 100, and the enumeration has 91 elements; the expression matches
  with prefix \<open>T-1\<close>, start \<open>0\<close> and end \<open>00\<close>, and the result is the single element \<open>T-10\<close>.
\<close>

theorem expand_range_unequal_width:
  "range_shape ''T-10 through T-100'' ''T-'' ''10'' '' '' ''through'' '' '' ''T-'' ''100'' \<and>
   parseInt ''10'' = 10 \<and> parseInt ''100'' = 100 \<and>
   match_range ''T-10 through T-100'' = Some (''T-1'', ''0'', ''00'') \<and>
   expandRequirementRange ''T-10 through T-100'' = [''T-10''] \<and>
   length (map (\<lambda>i. ''T-'' @ padStart 2 (String_nat i)) [10 ..< Suc 100]) = 91"
proof -
  have "range_shape ''T-10 through T-100'' ''T-'' ''10'' '' '' ''through'' '' '' ''T-'' ''100''"
    by code_simp
  moreover have "parseInt ''10'' = 10 \<and> parseInt ''100'' = 100"
    by code_simp
  moreover have "match_range ''T-10 through T-100'' = Some (''T-1'', ''0'', ''00'')"
    by code_simp
  moreover have "expandRequirementRange ''T-10 through T-100'' = [''T-10'']"
    by code_simp
  moreover have "length (map (\<lambda>i. ''T-'' @ padStart 2 (String_nat i)) [10 ..< Suc 100]) = 91"
    by simp
  ultimately show ?thesis by blast
qed

end
